theory Spec2Isabelle
  imports Main "HOL-Library.List_Lexorder"
begin

section \<open>The shared CNF model\<close>

text \<open>
  A literal is a Python integer, a clause of the DP and DPLL engines is a Python list of
  literals and a formula is a list of clauses: this is what the parsers of \<^verbatim>\<open>dp.py\<close>
  and \<^verbatim>\<open>dpll.py\<close> build. The variable of a literal is its absolute value.
\<close>

type_synonym formula = "int list list"

type_synonym clause = "int list"

definition lits_of :: "formula \<Rightarrow> int set" where
  "lits_of clauses = (\<Union>c\<in>set clauses. set c)"

definition vars_of :: "formula \<Rightarrow> int set" where
  "vars_of clauses = abs ` lits_of clauses"

definition taut_vars_of :: "formula \<Rightarrow> int set" where
  "taut_vars_of clauses = {v. \<exists>c\<in>set clauses. \<exists>l\<in>set c. - l \<in> set c \<and> v = \<bar>l\<bar>}"

section \<open>The DP elimination engine (dp.py)\<close>

fun find_unit_clause :: "formula \<Rightarrow> int option" where
  "find_unit_clause [] = None"
| "find_unit_clause (c # cs) = (if length c = 1 then Some (hd c) else find_unit_clause cs)"

text \<open>The loop of \<^verbatim>\<open>unit_propagate\<close>, with the list \<^verbatim>\<open>new\<close> as accumulator; the early \<^verbatim>\<open>return [[]]\<close> drops everything collected so far.\<close>

fun unit_propagate_loop :: "formula \<Rightarrow> int \<Rightarrow> formula \<Rightarrow> formula" where
  "unit_propagate_loop [] unit new = new"
| "unit_propagate_loop (c # cs) unit new =
     (if unit \<in> set c then unit_propagate_loop cs unit new
      else if - unit \<in> set c then
        (let r = filter (\<lambda>lit. lit \<noteq> - unit) c
         in if r = [] then [[]] else unit_propagate_loop cs unit (new @ [r]))
      else unit_propagate_loop cs unit (new @ [c]))"

definition unit_propagate :: "formula \<Rightarrow> int \<Rightarrow> formula" where
  "unit_propagate clauses unit = unit_propagate_loop clauses unit []"

text \<open>
  The dictionary \<^verbatim>\<open>pol\<close> of \<^verbatim>\<open>find_pure_literal\<close> keeps its keys in insertion
  order and the second loop returns at the first key with a single sign, so the dictionary
  is an association list in insertion order. \<^verbatim>\<open>setdefault_add\<close> is
  \<^verbatim>\<open>pol.setdefault(v, set()).add(b)\<close>.
\<close>

fun setdefault_add :: "(int \<times> bool set) list \<Rightarrow> int \<Rightarrow> bool \<Rightarrow> (int \<times> bool set) list" where
  "setdefault_add [] v b = [(v, {b})]"
| "setdefault_add ((k, signs) # kvs) v b =
     (if k = v then (k, insert b signs) # kvs else (k, signs) # setdefault_add kvs v b)"

fun first_single_sign :: "(int \<times> bool set) list \<Rightarrow> int option" where
  "first_single_sign [] = None"
| "first_single_sign ((v, signs) # kvs) =
     (if card signs = 1 then Some (if True \<in> signs then v else - v)
      else first_single_sign kvs)"

definition polarities :: "formula \<Rightarrow> (int \<times> bool set) list" where
  "polarities clauses =
     foldl (\<lambda>pol lit. setdefault_add pol \<bar>lit\<bar> (lit > 0)) [] (concat clauses)"

definition find_pure_literal :: "formula \<Rightarrow> int option" where
  "find_pure_literal clauses = first_single_sign (polarities clauses)"

text \<open>\<^verbatim>\<open>list(dict.fromkeys(R))\<close>: the first occurrence of every element, in order.\<close>

fun fromkeys :: "int list \<Rightarrow> int list \<Rightarrow> int list" where
  "fromkeys seen [] = []"
| "fromkeys seen (x # xs) =
     (if x \<in> set seen then fromkeys seen xs else x # fromkeys (x # seen) xs)"

definition resolvent_dp :: "int \<Rightarrow> clause \<Rightarrow> clause \<Rightarrow> clause" where
  "resolvent_dp var C D =
     fromkeys [] (filter (\<lambda>l. l \<noteq> var) C @ filter (\<lambda>l. l \<noteq> - var) D)"

definition tautology :: "clause \<Rightarrow> bool" where
  "tautology R = (\<exists>l\<in>set R. - l \<in> set R)"

definition resolvents_dp :: "int \<Rightarrow> formula \<Rightarrow> formula \<Rightarrow> formula" where
  "resolvents_dp var pos neg =
     concat (map (\<lambda>C. concat (map (\<lambda>D.
       (let R = resolvent_dp var C D in if \<not> tautology R then [R] else [])) neg)) pos)"

text \<open>
  The last case of \<^verbatim>\<open>dp_eliminate\<close>: elimination of the variable of
  \<^verbatim>\<open>clauses[0][0]\<close>. It is reached only when the formula is not empty and has no
  empty clause, so the index is in range.
\<close>

definition eliminate :: "formula \<Rightarrow> formula" where
  "eliminate clauses =
     (let lit0 = hd (hd clauses);
          var = \<bar>lit0\<bar>;
          pos = filter (\<lambda>c. var \<in> set c) clauses;
          neg = filter (\<lambda>c. - var \<in> set c) clauses;
          rest = filter (\<lambda>c. var \<notin> set c \<and> - var \<notin> set c) clauses
      in rest @ resolvents_dp var pos neg)"

text \<open>
  The measure of the recursion: the number of variables plus the number of variables
  that occur with both signs inside one clause.
\<close>

definition dp_measure :: "formula \<Rightarrow> nat" where
  "dp_measure clauses = card (vars_of clauses) + card (taut_vars_of clauses)"

function dp_eliminate :: "formula \<Rightarrow> bool" where
  "dp_eliminate clauses =
     (if \<exists>c\<in>set clauses. length c = 0 then False
      else if clauses = [] then True
      else case find_pure_literal clauses of
        Some p \<Rightarrow> dp_eliminate (filter (\<lambda>c. p \<notin> set c) clauses)
      | None \<Rightarrow>
         (case find_unit_clause clauses of
            Some u \<Rightarrow> dp_eliminate (unit_propagate clauses u)
          | None \<Rightarrow> dp_eliminate (eliminate clauses)))"
  by pat_completeness auto

subsection \<open>Auxiliary notions for the DP engine\<close>

definition signs_of :: "int set \<Rightarrow> int \<Rightarrow> bool set" where
  "signs_of L v = (\<lambda>l. l > 0) ` {l \<in> L. \<bar>l\<bar> = v}"

definition pol_inv :: "(int \<times> bool set) list \<Rightarrow> int set \<Rightarrow> bool" where
  "pol_inv pol L = (distinct (map fst pol) \<and> fst ` set pol = abs ` L \<and>
     (\<forall>v s. (v, s) \<in> set pol \<longrightarrow> s = signs_of L v))"

section \<open>The DPLL search engine (dpll.py)\<close>

text \<open>
  A model is a Python set of literals. \<^verbatim>\<open>dpll_rec\<close> returns the model or
  \<^verbatim>\<open>None\<close>; the model is the value \<^verbatim>\<open>Some\<close> of an option.
\<close>

definition all_true :: "formula \<Rightarrow> int set \<Rightarrow> bool" where
  "all_true clauses model = (\<forall>clause\<in>set clauses. \<exists>lit\<in>set clause. lit \<in> model)"

definition some_false :: "formula \<Rightarrow> int set \<Rightarrow> bool" where
  "some_false clauses model = (\<exists>clause\<in>set clauses. \<forall>lit\<in>set clause. - lit \<in> model)"

fun unit_clause :: "formula \<Rightarrow> int set \<Rightarrow> int option" where
  "unit_clause [] model = None"
| "unit_clause (clause # clauses) model =
     (let survivors = filter (\<lambda>lit. - lit \<notin> model) clause
      in if length survivors = 1 \<and> hd survivors \<notin> model \<and> - hd survivors \<notin> model
         then Some (hd survivors)
         else unit_clause clauses model)"

text \<open>The dictionary \<^verbatim>\<open>counts\<close> of \<^verbatim>\<open>pure_literal\<close>, as for the DP engine, skipping assigned literals.\<close>

definition counts_of :: "formula \<Rightarrow> int set \<Rightarrow> (int \<times> bool set) list" where
  "counts_of clauses model =
     foldl (\<lambda>counts lit. if lit \<in> model \<or> - lit \<in> model then counts
                           else setdefault_add counts \<bar>lit\<bar> (lit > 0))
       [] (concat clauses)"

definition pure_literal :: "formula \<Rightarrow> int set \<Rightarrow> int option" where
  "pure_literal clauses model = first_single_sign (counts_of clauses model)"

definition simplify :: "formula \<Rightarrow> int \<Rightarrow> bool \<Rightarrow> formula" where
  "simplify clauses var val =
     map (filter (\<lambda>lit. lit \<noteq> (if val then - var else var)))
       (filter (\<lambda>clause. (if val then var else - var) \<notin> set clause) clauses)"

text \<open>The two nested loops of the branch rule stop at the first unassigned literal.\<close>

definition first_unassigned :: "formula \<Rightarrow> int set \<Rightarrow> int option" where
  "first_unassigned clauses model =
     find (\<lambda>lit. lit \<notin> model \<and> - lit \<notin> model) (concat clauses)"

function dpll_rec :: "formula \<Rightarrow> int set \<Rightarrow> int set option" where
  "dpll_rec clauses model =
     (if all_true clauses model then Some model
      else if some_false clauses model then None
      else case unit_clause clauses model of
        Some unit \<Rightarrow> dpll_rec (simplify clauses \<bar>unit\<bar> (unit > 0)) (model \<union> {unit})
      | None \<Rightarrow>
         (case pure_literal clauses model of
            Some pure \<Rightarrow> dpll_rec (simplify clauses \<bar>pure\<bar> (pure > 0)) (model \<union> {pure})
          | None \<Rightarrow>
             (case first_unassigned clauses model of
                Some lit \<Rightarrow>
                  (case dpll_rec (simplify clauses \<bar>lit\<bar> True) (model \<union> {\<bar>lit\<bar>}) of
                     Some res \<Rightarrow> Some res
                   | None \<Rightarrow> dpll_rec (simplify clauses \<bar>lit\<bar> False) (model \<union> {- \<bar>lit\<bar>}))
              | None \<Rightarrow> None)))"
  by pat_completeness auto

definition unassigned_lits :: "formula \<Rightarrow> int set \<Rightarrow> int set" where
  "unassigned_lits clauses model = {l \<in> lits_of clauses. l \<notin> model \<and> - l \<notin> model}"

text \<open>No variable is in the model with both signs.\<close>

definition consistent :: "int set \<Rightarrow> bool" where
  "consistent model = (\<forall>v. v \<noteq> 0 \<longrightarrow> \<not> (v \<in> model \<and> - v \<in> model))"

text \<open>
  \<^verbatim>\<open>dpll_rec\<close> instrumented: next to the result it returns, in the order of the
  calls, every extension the recursion performs, as the pair of the model before the
  extension and the literal added.
\<close>

function dpll_trace :: "formula \<Rightarrow> int set \<Rightarrow> int set option \<times> (int set \<times> int) list" where
  "dpll_trace clauses model =
     (if all_true clauses model then (Some model, [])
      else if some_false clauses model then (None, [])
      else case unit_clause clauses model of
        Some unit \<Rightarrow>
          (case dpll_trace (simplify clauses \<bar>unit\<bar> (unit > 0)) (model \<union> {unit}) of
             (res, ext) \<Rightarrow> (res, (model, unit) # ext))
      | None \<Rightarrow>
         (case pure_literal clauses model of
            Some pure \<Rightarrow>
              (case dpll_trace (simplify clauses \<bar>pure\<bar> (pure > 0)) (model \<union> {pure}) of
                 (res, ext) \<Rightarrow> (res, (model, pure) # ext))
          | None \<Rightarrow>
             (case first_unassigned clauses model of
                Some lit \<Rightarrow>
                  (case dpll_trace (simplify clauses \<bar>lit\<bar> True) (model \<union> {\<bar>lit\<bar>}) of
                     (Some res, ext) \<Rightarrow> (Some res, (model, \<bar>lit\<bar>) # ext)
                   | (None, ext) \<Rightarrow>
                       (case dpll_trace (simplify clauses \<bar>lit\<bar> False) (model \<union> {- \<bar>lit\<bar>}) of
                          (res, ext') \<Rightarrow> (res, (model, \<bar>lit\<bar>) # ext @ (model, - \<bar>lit\<bar>) # ext')))
              | None \<Rightarrow> (None, []))))"
  by pat_completeness auto

definition extension_ok :: "int set \<Rightarrow> int set \<times> int \<Rightarrow> bool" where
  "extension_ok M e = (case e of (m, l) \<Rightarrow>
     M \<subseteq> m \<and> consistent m \<and> l \<notin> m \<and> - l \<notin> m \<and> consistent (insert l m))"

section \<open>The resolution saturation engine (resolution.py)\<close>

text \<open>
  Clauses are frozensets and the working set is a set of frozensets. Python does not
  specify the order in which a set is iterated, and the engine depends on it twice: in
  \<^verbatim>\<open>for lit in c1\<close> and in \<^verbatim>\<open>list(clauses)\<close>. Both orders are parameters of
  the model. An order is valid when it lists exactly the elements of a finite set, each
  once; every theorem about the engine is stated for all valid orders.
\<close>

type_synonym lit_order = "int set \<Rightarrow> int list"

type_synonym clause_order = "int set set \<Rightarrow> int set list"

definition valid_lit_order :: "lit_order \<Rightarrow> bool" where
  "valid_lit_order lo = (\<forall>c. finite c \<longrightarrow> set (lo c) = c)"

definition finite_clauses :: "int set set \<Rightarrow> bool" where
  "finite_clauses W = (finite W \<and> (\<forall>c\<in>W. finite c))"

definition valid_clause_order :: "clause_order \<Rightarrow> bool" where
  "valid_clause_order co = (\<forall>W. finite_clauses W \<longrightarrow> set (co W) = W \<and> distinct (co W))"

text \<open>The loop of \<^verbatim>\<open>resolve_pair\<close> over the literals of \<^verbatim>\<open>c1\<close> in iteration order.\<close>

fun resolve_pair_loop :: "int list \<Rightarrow> int set \<Rightarrow> int set \<Rightarrow> int set option" where
  "resolve_pair_loop [] c1 c2 = None"
| "resolve_pair_loop (lit # lits) c1 c2 =
     (if - lit \<in> c2 then Some ((c1 \<union> c2) - {lit, - lit})
      else resolve_pair_loop lits c1 c2)"

definition resolve_pair :: "lit_order \<Rightarrow> int set \<Rightarrow> int set \<Rightarrow> int set option" where
  "resolve_pair lo c1 c2 = resolve_pair_loop (lo c1) c1 c2"

text \<open>
  The two nested loops over the pairs \<^verbatim>\<open>pairs[i], pairs[j]\<close> with \<^verbatim>\<open>i < j\<close>,
  with the set \<^verbatim>\<open>new\<close> as accumulator. The result \<^verbatim>\<open>None\<close> is the early
  \<^verbatim>\<open>return False\<close> at an empty resolvent.
\<close>

fun inner_loop :: "lit_order \<Rightarrow> int set \<Rightarrow> int set list \<Rightarrow> int set set \<Rightarrow> int set set option" where
  "inner_loop lo c1 [] new = Some new"
| "inner_loop lo c1 (c2 # cs) new =
     (case resolve_pair lo c1 c2 of
        None \<Rightarrow> inner_loop lo c1 cs new
      | Some r \<Rightarrow> if r = {} then None else inner_loop lo c1 cs (insert r new))"

fun outer_loop :: "lit_order \<Rightarrow> int set list \<Rightarrow> int set set \<Rightarrow> int set set option" where
  "outer_loop lo [] new = Some new"
| "outer_loop lo (c1 # cs) new =
     (case inner_loop lo c1 cs new of
        None \<Rightarrow> None
      | Some new' \<Rightarrow> outer_loop lo cs new')"

datatype round_result = Verdict bool | Continue "int set set"

text \<open>One pass of the \<^verbatim>\<open>while True\<close> loop: a verdict, or the enlarged working set.\<close>

definition round_step :: "lit_order \<Rightarrow> clause_order \<Rightarrow> int set set \<Rightarrow> round_result" where
  "round_step lo co clauses =
     (case outer_loop lo (co clauses) {} of
        None \<Rightarrow> Verdict False
      | Some new \<Rightarrow> if new \<subseteq> clauses then Verdict True else Continue (clauses \<union> new))"

text \<open>
  The loop itself. It is a partial function: the value \<^verbatim>\<open>None\<close> stands for a
  loop that does not return.
\<close>

partial_function (option) resolution_loop :: "lit_order \<Rightarrow> clause_order \<Rightarrow> int set set \<Rightarrow> bool option" where
  "resolution_loop lo co clauses =
     (case round_step lo co clauses of
        Verdict b \<Rightarrow> Some b
      | Continue clauses' \<Rightarrow> resolution_loop lo co clauses')"

declare resolution_loop.simps [code]

definition resolution :: "lit_order \<Rightarrow> clause_order \<Rightarrow> formula \<Rightarrow> bool option" where
  "resolution lo co clauses = resolution_loop lo co (set (map set clauses))"

text \<open>The working set at the start of round \<^verbatim>\<open>n\<close>, if the loop gets that far.\<close>

fun working_set :: "lit_order \<Rightarrow> clause_order \<Rightarrow> int set set \<Rightarrow> nat \<Rightarrow> int set set option" where
  "working_set lo co W 0 = Some W"
| "working_set lo co W (Suc n) =
     (case round_step lo co W of
        Verdict b \<Rightarrow> None
      | Continue W' \<Rightarrow> working_set lo co W' n)"

fun pairs_of :: "'a list \<Rightarrow> ('a \<times> 'a) list" where
  "pairs_of [] = []"
| "pairs_of (c # cs) = map (Pair c) cs @ pairs_of cs"

text \<open>Two concrete valid orders: literals ascending, clauses by their sorted literal lists.\<close>

definition sorted_lits :: lit_order where
  "sorted_lits c = sorted_list_of_set c"

definition sorted_clauses :: clause_order where
  "sorted_clauses W = map set (sorted_list_of_set (sorted_list_of_set ` W))"

subsection \<open>Auxiliary notions for the proofs about resolution\<close>

definition round_new :: "lit_order \<Rightarrow> clause_order \<Rightarrow> int set set \<Rightarrow> int set set" where
  "round_new lo co W = {r. \<exists>(c1, c2)\<in>set (pairs_of (co W)). resolve_pair lo c1 c2 = Some r}"

text \<open>Some clause is emptied by removing the negation of the unit literal.\<close>

definition unit_conflict :: "formula \<Rightarrow> int \<Rightarrow> bool" where
  "unit_conflict clauses unit =
     (\<exists>c\<in>set clauses. unit \<notin> set c \<and> - unit \<in> set c \<and> filter (\<lambda>lit. lit \<noteq> - unit) c = [])"

text \<open>
  Derivability by pairwise resolution, in the words of the specification: the resolvent
  is the union of both clauses minus the chosen literal and its negation.
\<close>

inductive derivable :: "int set set \<Rightarrow> int set \<Rightarrow> bool" for F :: "int set set" where
  given: "c \<in> F \<Longrightarrow> derivable F c"
| resolvent: "derivable F c1 \<Longrightarrow> derivable F c2 \<Longrightarrow> l \<in> c1 \<Longrightarrow> - l \<in> c2 \<Longrightarrow>
     derivable F ((c1 \<union> c2) - {l, - l})"

section \<open>Satisfiability\<close>

text \<open>
  The meaning of a formula, against which the verdicts of the DP and DPLL engines are
  proved correct. A formula is well formed when no literal is 0. An interpretation gives
  a truth value to every variable; a positive literal is true when its variable is, a
  negative literal when its variable is not.
\<close>

definition well_formed :: "formula \<Rightarrow> bool" where
  "well_formed clauses = (0 \<notin> lits_of clauses)"

definition lit_true :: "(int \<Rightarrow> bool) \<Rightarrow> int \<Rightarrow> bool" where
  "lit_true I l = ((l > 0 \<and> I l) \<or> (l < 0 \<and> \<not> I (- l)))"

definition satisfies :: "(int \<Rightarrow> bool) \<Rightarrow> formula \<Rightarrow> bool" where
  "satisfies I clauses = (\<forall>c\<in>set clauses. \<exists>l\<in>set c. lit_true I l)"

definition satisfiable :: "formula \<Rightarrow> bool" where
  "satisfiable clauses = (\<exists>I. satisfies I clauses)"

definition set_lit :: "(int \<Rightarrow> bool) \<Rightarrow> int \<Rightarrow> (int \<Rightarrow> bool)" where
  "set_lit I l = I(\<bar>l\<bar> := (l > 0))"

definition all_unassigned :: "formula \<Rightarrow> int set \<Rightarrow> bool" where
  "all_unassigned clauses model = (\<forall>l\<in>lits_of clauses. l \<notin> model \<and> - l \<notin> model)"

section \<open>Properties of the engines\<close>

subsection \<open>Pure literals, unit propagation and elimination\<close>

lemma finite_lits_of [simp]: "finite (lits_of F)"
  by (simp add: lits_of_def)

lemma finite_vars_of [simp]: "finite (vars_of F)"
  by (simp add: vars_of_def)

lemma taut_vars_subset_vars: "taut_vars_of F \<subseteq> vars_of F"
  by (auto simp: taut_vars_of_def vars_of_def lits_of_def)

lemma finite_taut_vars_of [simp]: "finite (taut_vars_of F)"
  using taut_vars_subset_vars finite_vars_of by (rule finite_subset)

lemma fst_setdefault_add: "fst ` set (setdefault_add pol v b) = insert v (fst ` set pol)"
  by (induction pol v b rule: setdefault_add.induct) auto

lemma distinct_setdefault_add: "distinct (map fst pol) \<Longrightarrow> distinct (map fst (setdefault_add pol v b))"
  by (induction pol v b rule: setdefault_add.induct) (auto simp: fst_setdefault_add)

lemma set_setdefault_add:
  "(k, s) \<in> set (setdefault_add pol v b) \<Longrightarrow> distinct (map fst pol) \<Longrightarrow>
     (k \<noteq> v \<and> (k, s) \<in> set pol) \<or>
     (k = v \<and> ((\<exists>s'. (v, s') \<in> set pol \<and> s = insert b s') \<or> (v \<notin> fst ` set pol \<and> s = {b})))"
  by (induction pol v b rule: setdefault_add.induct) (auto split: if_splits simp: rev_image_eqI)

lemma signs_of_insert:
  "signs_of (insert l L) v = (if \<bar>l\<bar> = v then insert (l > 0) (signs_of L v) else signs_of L v)"
  by (auto simp: signs_of_def)

lemma signs_of_fresh: "v \<notin> abs ` L \<Longrightarrow> signs_of L v = {}"
  by (auto simp: signs_of_def)

lemma pol_inv_step:
  assumes "pol_inv pol L"
  shows "pol_inv (setdefault_add pol \<bar>l\<bar> (l > 0)) (insert l L)"
  unfolding pol_inv_def
proof (intro conjI allI impI)
  show "distinct (map fst (setdefault_add pol \<bar>l\<bar> (0 < l)))"
    using assms by (simp add: pol_inv_def distinct_setdefault_add)
next
  show "fst ` set (setdefault_add pol \<bar>l\<bar> (0 < l)) = abs ` insert l L"
    using assms by (simp add: pol_inv_def fst_setdefault_add)
next
  fix v s assume m: "(v, s) \<in> set (setdefault_add pol \<bar>l\<bar> (0 < l))"
  from assms have d: "distinct (map fst pol)" by (simp add: pol_inv_def)
  from assms have k: "fst ` set pol = abs ` L" by (simp add: pol_inv_def)
  from assms have i: "\<And>k t. (k, t) \<in> set pol \<Longrightarrow> t = signs_of L k"
    by (simp add: pol_inv_def)
  from set_setdefault_add[OF m d]
  show "s = signs_of (insert l L) v"
  proof (elim disjE conjE exE)
    assume "v \<noteq> \<bar>l\<bar>" "(v, s) \<in> set pol"
    then show ?thesis using i by (auto simp: signs_of_insert)
  next
    fix s' assume "v = \<bar>l\<bar>" "(\<bar>l\<bar>, s') \<in> set pol" "s = insert (0 < l) s'"
    then show ?thesis using i by (auto simp: signs_of_insert)
  next
    assume a: "v = \<bar>l\<bar>" "\<bar>l\<bar> \<notin> fst ` set pol" "s = {0 < l}"
    then have "signs_of L v = {}" using k by (simp add: signs_of_fresh)
    with a show ?thesis by (simp add: signs_of_insert)
  qed
qed

lemma pol_inv_foldl:
  "pol_inv pol L \<Longrightarrow>
   pol_inv (foldl (\<lambda>pol lit. setdefault_add pol \<bar>lit\<bar> (lit > 0)) pol ls) (L \<union> set ls)"
proof (induction ls arbitrary: pol L)
  case Nil
  then show ?case by simp
next
  case (Cons l ls)
  from Cons.IH[OF pol_inv_step[OF Cons.prems, of l]] show ?case by simp
qed

lemma pol_inv_polarities: "pol_inv (polarities F) (lits_of F)"
proof -
  have "pol_inv [] {}" by (simp add: pol_inv_def)
  from pol_inv_foldl[OF this, of "concat F"] show ?thesis
    by (simp add: polarities_def lits_of_def)
qed

lemma first_single_sign_Some:
  "first_single_sign pol = Some p \<Longrightarrow>
   \<exists>v s. (v, s) \<in> set pol \<and> card s = 1 \<and> p = (if True \<in> s then v else - v)"
  by (induction pol rule: first_single_sign.induct) (auto split: if_splits)

lemma first_single_sign_None:
  "first_single_sign pol = None \<Longrightarrow> (v, s) \<in> set pol \<Longrightarrow> card s \<noteq> 1"
  by (induction pol rule: first_single_sign.induct) (auto split: if_splits)

lemma first_single_sign_pure:
  assumes inv: "pol_inv pol L" and "first_single_sign pol = Some p"
  shows "p \<in> L" and "\<And>l. l \<in> L \<Longrightarrow> \<bar>l\<bar> = \<bar>p\<bar> \<Longrightarrow> l = p"
proof -
  from assms obtain v s where vs: "(v, s) \<in> set pol" "card s = 1"
    and p: "p = (if True \<in> s then v else - v)"
    by (blast dest: first_single_sign_Some)
  from inv vs have s: "s = signs_of L v" by (auto simp: pol_inv_def)
  from inv vs have "v \<in> abs ` L" unfolding pol_inv_def by (metis fst_conv imageI)
  then obtain l0 where l0: "l0 \<in> L" "\<bar>l0\<bar> = v" by auto
  from vs(2) obtain b where sb: "s = {b}" by (auto simp: card_1_singleton_iff)
  have all: "\<And>l. l \<in> L \<Longrightarrow> \<bar>l\<bar> = v \<Longrightarrow> (l > 0) = b"
    using s sb by (auto simp: signs_of_def)
  have pb: "p = (if b then v else - v)" using p sb by auto
  have eq: "l = p" if "l \<in> L" "\<bar>l\<bar> = v" for l
  proof (cases b)
    case True
    with all[OF that] have "l > 0" by simp
    with that(2) pb True show ?thesis by simp
  next
    case False
    with all[OF that] have "\<not> l > 0" by simp
    with that(2) pb False show ?thesis by simp
  qed
  from eq[OF l0] l0 show "p \<in> L" by simp
  have "\<bar>p\<bar> = v" using eq[OF l0] l0 by simp
  then show "\<And>l. l \<in> L \<Longrightarrow> \<bar>l\<bar> = \<bar>p\<bar> \<Longrightarrow> l = p" using eq by simp
qed

lemma find_pure_literal_Some:
  assumes "find_pure_literal F = Some p"
  shows "p \<in> lits_of F" and "\<And>l. l \<in> lits_of F \<Longrightarrow> \<bar>l\<bar> = \<bar>p\<bar> \<Longrightarrow> l = p"
  using first_single_sign_pure[OF pol_inv_polarities, of F p] assms
  by (auto simp: find_pure_literal_def)

lemma find_unit_clause_Some: "find_unit_clause F = Some u \<Longrightarrow> [u] \<in> set F"
proof (induction F)
  case Nil
  then show ?case by simp
next
  case (Cons c cs)
  show ?case
  proof (cases "length c = 1")
    case True
    then obtain x where "c = [x]" by (cases c) auto
    with Cons.prems show ?thesis by simp
  next
    case False
    with Cons show ?thesis by simp
  qed
qed

lemma find_unit_clause_None: "find_unit_clause F = None \<Longrightarrow> c \<in> set F \<Longrightarrow> length c \<noteq> 1"
  by (induction F) (auto split: if_splits)

lemma unit_propagate_loop_cases:
  "r \<in> set (unit_propagate_loop cs u new) \<Longrightarrow>
   r \<in> set new \<or> r = [] \<or> (\<exists>c\<in>set cs. u \<notin> set c \<and> r = filter (\<lambda>lit. lit \<noteq> - u) c)"
proof (induction cs u new rule: unit_propagate_loop.induct)
  case (1 unit new)
  then show ?case by simp
next
  case (2 c cs unit new)
  show ?case
  proof (cases "unit \<in> set c")
    case True
    with 2 show ?thesis by auto
  next
    case False
    note nu = this
    show ?thesis
    proof (cases "- unit \<in> set c")
      case True
      show ?thesis
      proof (cases "filter (\<lambda>lit. lit \<noteq> - unit) c = []")
        case True
        with nu \<open>- unit \<in> set c\<close> "2.prems" show ?thesis by (simp add: Let_def)
      next
        case False
        with nu \<open>- unit \<in> set c\<close> "2.prems"
        have "r \<in> set (unit_propagate_loop cs unit (new @ [filter (\<lambda>lit. lit \<noteq> - unit) c]))"
          by (simp add: Let_def)
        from "2.IH"(2)[OF nu \<open>- unit \<in> set c\<close> refl False this] nu show ?thesis by auto
      qed
    next
      case False
      with nu "2.prems" have "r \<in> set (unit_propagate_loop cs unit (new @ [c]))" by simp
      have "filter (\<lambda>lit. lit \<noteq> - unit) c = c" using False by (auto simp: filter_id_conv)
      with "2.IH"(3)[OF nu False \<open>r \<in> set (unit_propagate_loop cs unit (new @ [c]))\<close>] nu show ?thesis
        by auto
    qed
  qed
qed

lemma unit_propagate_cases:
  "r \<in> set (unit_propagate F u) \<Longrightarrow>
   r = [] \<or> (\<exists>c\<in>set F. u \<notin> set c \<and> r = filter (\<lambda>lit. lit \<noteq> - u) c)"
  unfolding unit_propagate_def by (drule unit_propagate_loop_cases) simp

lemma lits_unit_propagate: "lits_of (unit_propagate F u) \<subseteq> lits_of F - {u, - u}"
proof
  fix l assume "l \<in> lits_of (unit_propagate F u)"
  then obtain r where r: "r \<in> set (unit_propagate F u)" "l \<in> set r"
    by (auto simp: lits_of_def)
  from unit_propagate_cases[OF r(1)] r(2)
  show "l \<in> lits_of F - {u, - u}" by (auto simp: lits_of_def)
qed

lemma taut_unit_propagate: "taut_vars_of (unit_propagate F u) \<subseteq> taut_vars_of F"
proof
  fix v assume "v \<in> taut_vars_of (unit_propagate F u)"
  then obtain r l where r: "r \<in> set (unit_propagate F u)" "l \<in> set r" "- l \<in> set r" "v = \<bar>l\<bar>"
    by (auto simp: taut_vars_of_def)
  from unit_propagate_cases[OF r(1)] r(2,3) obtain c where "c \<in> set F" "l \<in> set c" "- l \<in> set c"
    by auto
  with r(4) show "v \<in> taut_vars_of F" unfolding taut_vars_of_def by blast
qed

lemma vars_of_mono_strict:
  assumes "lits_of F' \<subseteq> lits_of F - {x, - x}" "x \<in> lits_of F"
  shows "vars_of F' \<subset> vars_of F"
proof -
  have "\<bar>x\<bar> \<in> vars_of F" using assms(2) by (auto simp: vars_of_def)
  moreover have "\<bar>x\<bar> \<notin> vars_of F'"
  proof
    assume "\<bar>x\<bar> \<in> vars_of F'"
    then obtain l where "l \<in> lits_of F'" "\<bar>l\<bar> = \<bar>x\<bar>" by (auto simp: vars_of_def)
    with assms(1) show False by (auto simp: abs_eq_iff)
  qed
  moreover have "vars_of F' \<subseteq> vars_of F" using assms(1) by (auto simp: vars_of_def)
  ultimately show ?thesis by blast
qed

lemma dp_measure_less:
  assumes "vars_of F' \<subseteq> vars_of F" "taut_vars_of F' \<subseteq> taut_vars_of F"
    and "vars_of F' \<noteq> vars_of F \<or> taut_vars_of F' \<noteq> taut_vars_of F"
  shows "dp_measure F' < dp_measure F"
proof -
  have a: "card (vars_of F') \<le> card (vars_of F)" using assms(1) by (simp add: card_mono)
  have b: "card (taut_vars_of F') \<le> card (taut_vars_of F)" using assms(2) by (simp add: card_mono)
  from assms(3) show ?thesis
  proof
    assume "vars_of F' \<noteq> vars_of F"
    with assms(1) have "vars_of F' \<subset> vars_of F" by blast
    then have "card (vars_of F') < card (vars_of F)" by (simp add: psubset_card_mono)
    with b show ?thesis by (simp add: dp_measure_def)
  next
    assume "taut_vars_of F' \<noteq> taut_vars_of F"
    with assms(2) have "taut_vars_of F' \<subset> taut_vars_of F" by blast
    then have "card (taut_vars_of F') < card (taut_vars_of F)" by (simp add: psubset_card_mono)
    with a show ?thesis by (simp add: dp_measure_def)
  qed
qed

lemma pure_step_vars:
  assumes "find_pure_literal F = Some p"
  shows "vars_of (filter (\<lambda>c. p \<notin> set c) F) \<subset> vars_of F"
proof (rule vars_of_mono_strict[where x = p])
  show "p \<in> lits_of F" using assms by (rule find_pure_literal_Some)
  show "lits_of (filter (\<lambda>c. p \<notin> set c) F) \<subseteq> lits_of F - {p, - p}"
  proof
    fix l assume "l \<in> lits_of (filter (\<lambda>c. p \<notin> set c) F)"
    then obtain c where c: "c \<in> set F" "p \<notin> set c" "l \<in> set c" by (auto simp: lits_of_def)
    then have lF: "l \<in> lits_of F" by (auto simp: lits_of_def)
    have "l \<noteq> p" using c by auto
    moreover have "l \<noteq> - p"
    proof
      assume "l = - p"
      then have "\<bar>l\<bar> = \<bar>p\<bar>" by simp
      from find_pure_literal_Some(2)[OF assms lF this] \<open>l \<noteq> p\<close> show False by simp
    qed
    ultimately show "l \<in> lits_of F - {p, - p}" using lF by simp
  qed
qed

lemma taut_vars_ofI: "c \<in> set F \<Longrightarrow> l \<in> set c \<Longrightarrow> - l \<in> set c \<Longrightarrow> \<bar>l\<bar> \<in> taut_vars_of F"
  unfolding taut_vars_of_def by blast

lemma lits_ofI: "c \<in> set F \<Longrightarrow> l \<in> set c \<Longrightarrow> l \<in> lits_of F"
  unfolding lits_of_def by blast

lemma taut_filter: "taut_vars_of (filter P F) \<subseteq> taut_vars_of F"
  by (auto simp: taut_vars_of_def)

lemma unit_step_vars:
  assumes "find_unit_clause F = Some u"
  shows "vars_of (unit_propagate F u) \<subset> vars_of F"
proof (rule vars_of_mono_strict[where x = u])
  from find_unit_clause_Some[OF assms] show "u \<in> lits_of F" by (force simp: lits_of_def)
  show "lits_of (unit_propagate F u) \<subseteq> lits_of F - {u, - u}" by (rule lits_unit_propagate)
qed

lemma set_fromkeys: "set (fromkeys seen xs) = set xs - set seen"
  by (induction seen xs rule: fromkeys.induct) auto

lemma distinct_fromkeys: "distinct (fromkeys seen xs)"
  by (induction seen xs rule: fromkeys.induct) (auto simp: set_fromkeys)

lemma set_resolvent_dp: "set (resolvent_dp var C D) = (set C - {var}) \<union> (set D - {- var})"
  by (auto simp: resolvent_dp_def set_fromkeys)

lemma set_resolvents_dp:
  "set (resolvents_dp var pos neg) =
     {R. \<exists>C\<in>set pos. \<exists>D\<in>set neg. R = resolvent_dp var C D \<and> \<not> tautology R}"
  by (auto simp: resolvents_dp_def Let_def split: if_splits)

lemma set_eliminate:
  "set (eliminate F) =
     {c \<in> set F. \<bar>hd (hd F)\<bar> \<notin> set c \<and> - \<bar>hd (hd F)\<bar> \<notin> set c} \<union>
     {R. \<exists>C\<in>set F. \<exists>D\<in>set F. \<bar>hd (hd F)\<bar> \<in> set C \<and> - \<bar>hd (hd F)\<bar> \<in> set D \<and>
          R = resolvent_dp \<bar>hd (hd F)\<bar> C D \<and> \<not> tautology R}"
  by (auto simp: eliminate_def Let_def set_resolvents_dp)

lemma elim_step_lits: "lits_of (eliminate F) \<subseteq> lits_of F"
proof
  fix l assume "l \<in> lits_of (eliminate F)"
  then obtain r where r: "r \<in> set (eliminate F)" "l \<in> set r" by (auto simp: lits_of_def)
  from r(1) show "l \<in> lits_of F" unfolding set_eliminate
  proof (elim UnE)
    assume "r \<in> {c \<in> set F. \<bar>hd (hd F)\<bar> \<notin> set c \<and> - \<bar>hd (hd F)\<bar> \<notin> set c}"
    with r(2) show ?thesis by (auto intro: lits_ofI)
  next
    assume "r \<in> {R. \<exists>C\<in>set F. \<exists>D\<in>set F. \<bar>hd (hd F)\<bar> \<in> set C \<and> - \<bar>hd (hd F)\<bar> \<in> set D \<and>
          R = resolvent_dp \<bar>hd (hd F)\<bar> C D \<and> \<not> tautology R}"
    then obtain C D where "C \<in> set F" "D \<in> set F" "r = resolvent_dp \<bar>hd (hd F)\<bar> C D" by auto
    with r(2) show ?thesis by (auto simp: set_resolvent_dp intro: lits_ofI)
  qed
qed

lemma elim_step_vars: "vars_of (eliminate F) \<subseteq> vars_of F"
  using elim_step_lits[of F] by (auto simp: vars_of_def)

lemma elim_step_taut: "taut_vars_of (eliminate F) \<subseteq> taut_vars_of F - {\<bar>hd (hd F)\<bar>}"
proof
  fix v assume "v \<in> taut_vars_of (eliminate F)"
  then obtain r l where r: "r \<in> set (eliminate F)" "l \<in> set r" "- l \<in> set r" "v = \<bar>l\<bar>"
    by (auto simp: taut_vars_of_def)
  then have "tautology r" by (auto simp: tautology_def)
  with r(1) have rF: "r \<in> set F" and nv: "\<bar>hd (hd F)\<bar> \<notin> set r" "- \<bar>hd (hd F)\<bar> \<notin> set r"
    by (auto simp: set_eliminate)
  have "v \<in> taut_vars_of F" using rF r by (auto simp: taut_vars_of_def)
  moreover have "v \<noteq> \<bar>hd (hd F)\<bar>"
  proof
    assume "v = \<bar>hd (hd F)\<bar>"
    with r(4) have "l = \<bar>hd (hd F)\<bar> \<or> l = - \<bar>hd (hd F)\<bar>" by (auto simp: abs_eq_iff)
    with r(2,3) nv show False by auto
  qed
  ultimately show "v \<in> taut_vars_of F - {\<bar>hd (hd F)\<bar>}" by simp
qed

lemma elim_step_pivot_gone:
  assumes "\<bar>hd (hd F)\<bar> \<notin> taut_vars_of F"
  shows "\<bar>hd (hd F)\<bar> \<notin> vars_of (eliminate F)"
proof
  let ?v = "\<bar>hd (hd F)\<bar>"
  assume "?v \<in> vars_of (eliminate F)"
  then obtain r l where r: "r \<in> set (eliminate F)" "l \<in> set r" "\<bar>l\<bar> = ?v"
    by (auto simp: vars_of_def lits_of_def)
  have nt: False if "c \<in> set F" "?v \<in> set c" "- ?v \<in> set c" for c
  proof -
    from taut_vars_ofI[OF that] assms show False by simp
  qed
  from r(3) have l: "l = ?v \<or> l = - ?v" by (auto simp: abs_eq_iff)
  from r(1) show False unfolding set_eliminate
  proof (elim UnE)
    assume "r \<in> {c \<in> set F. ?v \<notin> set c \<and> - ?v \<notin> set c}"
    with l r(2) show False by auto
  next
    assume "r \<in> {R. \<exists>C\<in>set F. \<exists>D\<in>set F. ?v \<in> set C \<and> - ?v \<in> set D \<and>
          R = resolvent_dp ?v C D \<and> \<not> tautology R}"
    then obtain C D where CD: "C \<in> set F" "D \<in> set F" "?v \<in> set C" "- ?v \<in> set D"
      "r = resolvent_dp ?v C D" by auto
    from r(2) CD(5) have "l \<in> (set C - {?v}) \<union> (set D - {- ?v})" by (simp add: set_resolvent_dp)
    with l nt[OF CD(1) CD(3)] nt[OF CD(2) _ CD(4)] show False by auto
  qed
qed

lemma pivot_in_vars:
  assumes "F \<noteq> []" "\<not> (\<exists>c\<in>set F. length c = 0)"
  shows "\<bar>hd (hd F)\<bar> \<in> vars_of F"
proof -
  from assms obtain c cs where F: "F = c # cs" by (cases F) auto
  with assms(2) obtain l ls where c: "c = l # ls" by (cases c) auto
  show ?thesis by (simp add: F c vars_of_def lits_of_def)
qed

lemma dp_measure_pure:
  "find_pure_literal F = Some p \<Longrightarrow> dp_measure (filter (\<lambda>c. p \<notin> set c) F) < dp_measure F"
  using pure_step_vars[of F p] taut_filter[of "\<lambda>c. p \<notin> set c" F]
  by (intro dp_measure_less) auto

lemma dp_measure_unit:
  "find_unit_clause F = Some u \<Longrightarrow> dp_measure (unit_propagate F u) < dp_measure F"
  using unit_step_vars[of F u] taut_unit_propagate[of F u]
  by (intro dp_measure_less) auto

lemma dp_measure_elim:
  assumes "F \<noteq> []" "\<not> (\<exists>c\<in>set F. length c = 0)"
  shows "dp_measure (eliminate F) < dp_measure F"
proof (rule dp_measure_less)
  show "vars_of (eliminate F) \<subseteq> vars_of F" by (rule elim_step_vars)
  show "taut_vars_of (eliminate F) \<subseteq> taut_vars_of F" using elim_step_taut[of F] by blast
  show "vars_of (eliminate F) \<noteq> vars_of F \<or> taut_vars_of (eliminate F) \<noteq> taut_vars_of F"
  proof (cases "\<bar>hd (hd F)\<bar> \<in> taut_vars_of F")
    case True
    with elim_step_taut[of F] show ?thesis by blast
  next
    case False
    from elim_step_pivot_gone[OF False] pivot_in_vars[OF assms] show ?thesis by auto
  qed
qed

termination dp_eliminate
proof (relation "measure dp_measure")
  show "wf (measure dp_measure)" by simp
next
  fix clauses :: formula and p
  assume "find_pure_literal clauses = Some p"
  then show "(filter (\<lambda>c. p \<notin> set c) clauses, clauses) \<in> measure dp_measure"
    by (simp add: dp_measure_pure)
next
  fix clauses :: formula and u
  assume "find_unit_clause clauses = Some u"
  then show "(unit_propagate clauses u, clauses) \<in> measure dp_measure"
    by (simp add: dp_measure_unit)
next
  fix clauses :: formula
  assume "\<not> (\<exists>c\<in>set clauses. length c = 0)" "clauses \<noteq> []"
  then show "(eliminate clauses, clauses) \<in> measure dp_measure"
    by (simp add: dp_measure_elim)
qed

declare dp_eliminate.simps [simp del]

subsection \<open>The DPLL recursion\<close>

lemma lits_simplify: "lits_of (simplify clauses var val) \<subseteq> lits_of clauses - {var, - var}"
  by (auto simp: lits_of_def simplify_def split: if_splits)

lemma abs_cases_lit: "x \<in> lits_of F \<Longrightarrow> \<bar>x\<bar> \<in> lits_of F \<or> - \<bar>x\<bar> \<in> lits_of F"
  by (cases "x < 0") auto

lemma simplify_vars:
  assumes "x \<in> lits_of clauses"
  shows "vars_of (simplify clauses \<bar>x\<bar> val) \<subset> vars_of clauses"
proof -
  have a: "\<bar>x\<bar> \<in> vars_of clauses" using assms by (auto simp: vars_of_def)
  have b: "\<bar>x\<bar> \<notin> vars_of (simplify clauses \<bar>x\<bar> val)"
  proof
    assume "\<bar>x\<bar> \<in> vars_of (simplify clauses \<bar>x\<bar> val)"
    then obtain l where "l \<in> lits_of (simplify clauses \<bar>x\<bar> val)" "\<bar>l\<bar> = \<bar>x\<bar>"
      by (auto simp: vars_of_def)
    with lits_simplify[of clauses "\<bar>x\<bar>" val] show False by (auto simp: abs_eq_iff)
  qed
  have c: "vars_of (simplify clauses \<bar>x\<bar> val) \<subseteq> vars_of clauses"
    using lits_simplify[of clauses "\<bar>x\<bar>" val] by (auto simp: vars_of_def)
  from a b c show ?thesis by blast
qed

lemma simplify_measure:
  "x \<in> lits_of clauses \<Longrightarrow> card (vars_of (simplify clauses \<bar>x\<bar> val)) < card (vars_of clauses)"
  by (simp add: simplify_vars psubset_card_mono)

lemma unit_clause_Some:
  "unit_clause clauses model = Some u \<Longrightarrow> u \<in> lits_of clauses \<and> u \<notin> model \<and> - u \<notin> model"
proof (induction clauses)
  case Nil
  then show ?case by simp
next
  case (Cons c cs)
  let ?s = "filter (\<lambda>lit. - lit \<notin> model) c"
  show ?case
  proof (cases "length ?s = 1 \<and> hd ?s \<notin> model \<and> - hd ?s \<notin> model")
    case True
    with Cons.prems have u: "u = hd ?s" by (simp add: Let_def)
    from True obtain y where "?s = [y]" by (cases ?s) auto
    then have "hd ?s \<in> set ?s" by simp
    then have "hd ?s \<in> set c" by (metis (mono_tags, lifting) mem_Collect_eq set_filter)
    with u True show ?thesis by (auto simp: lits_of_def)
  next
    case False
    with Cons.prems have "unit_clause cs model = Some u" by (auto simp: Let_def)
    from Cons.IH[OF this] show ?thesis by (auto simp: lits_of_def)
  qed
qed

lemma counts_foldl:
  "pol_inv counts L \<Longrightarrow>
   pol_inv (foldl (\<lambda>counts lit. if lit \<in> model \<or> - lit \<in> model then counts
                           else setdefault_add counts \<bar>lit\<bar> (lit > 0)) counts ls)
     (L \<union> {l \<in> set ls. l \<notin> model \<and> - l \<notin> model})"
proof (induction ls arbitrary: counts L)
  case Nil
  then show ?case by simp
next
  case (Cons l ls)
  show ?case
  proof (cases "l \<in> model \<or> - l \<in> model")
    case True
    then have "L \<union> {x \<in> set (l # ls). x \<notin> model \<and> - x \<notin> model} = L \<union> {x \<in> set ls. x \<notin> model \<and> - x \<notin> model}"
      by auto
    with Cons.IH[OF Cons.prems] True show ?thesis by simp
  next
    case False
    then have "L \<union> {x \<in> set (l # ls). x \<notin> model \<and> - x \<notin> model} = insert l L \<union> {x \<in> set ls. x \<notin> model \<and> - x \<notin> model}"
      by auto
    with Cons.IH[OF pol_inv_step[OF Cons.prems, of l]] False show ?thesis by simp
  qed
qed

lemma pol_inv_counts: "pol_inv (counts_of clauses model) (unassigned_lits clauses model)"
proof -
  have "pol_inv [] {}" by (simp add: pol_inv_def)
  from counts_foldl[OF this, of model "concat clauses"] show ?thesis
    by (simp add: counts_of_def unassigned_lits_def lits_of_def)
qed

lemma pure_literal_Some:
  assumes "pure_literal clauses model = Some p"
  shows "p \<in> lits_of clauses" "p \<notin> model" "- p \<notin> model"
  using first_single_sign_pure(1)[OF pol_inv_counts, of clauses model p] assms
  by (auto simp: pure_literal_def unassigned_lits_def)

lemma find_Some_mem: "find P xs = Some x \<Longrightarrow> x \<in> set xs \<and> P x"
  by (induction xs) (auto split: if_splits)

lemma first_unassigned_Some:
  "first_unassigned clauses model = Some l \<Longrightarrow> l \<in> lits_of clauses \<and> l \<notin> model \<and> - l \<notin> model"
proof -
  assume "first_unassigned clauses model = Some l"
  then have "l \<in> set (concat clauses)" "l \<notin> model \<and> - l \<notin> model"
    unfolding first_unassigned_def by (auto dest: find_Some_mem simp del: set_concat)
  then show ?thesis by (auto simp: lits_of_def)
qed

termination dpll_rec
proof (relation "measure (\<lambda>(clauses, model). card (vars_of clauses))")
  show "wf (measure (\<lambda>(clauses, model). card (vars_of clauses)))" by simp
next
  fix clauses :: formula and model :: "int set" and x2
  assume "unit_clause clauses model = Some x2"
  then show "((simplify clauses \<bar>x2\<bar> (0 < x2), model \<union> {x2}), clauses, model)
        \<in> measure (\<lambda>(clauses, model). card (vars_of clauses))"
    by (simp add: simplify_measure unit_clause_Some)
next
  fix clauses :: formula and model :: "int set" and x2
  assume "pure_literal clauses model = Some x2"
  then show "((simplify clauses \<bar>x2\<bar> (0 < x2), model \<union> {x2}), clauses, model)
        \<in> measure (\<lambda>(clauses, model). card (vars_of clauses))"
    by (simp add: simplify_measure pure_literal_Some)
next
  fix clauses :: formula and model :: "int set" and x2
  assume "first_unassigned clauses model = Some x2"
  then show "((simplify clauses \<bar>x2\<bar> True, model \<union> {\<bar>x2\<bar>}), clauses, model)
        \<in> measure (\<lambda>(clauses, model). card (vars_of clauses))"
    by (simp add: simplify_measure first_unassigned_Some)
next
  fix clauses :: formula and model :: "int set" and x2
  assume "first_unassigned clauses model = Some x2"
  then show "((simplify clauses \<bar>x2\<bar> False, model \<union> {- \<bar>x2\<bar>}), clauses, model)
        \<in> measure (\<lambda>(clauses, model). card (vars_of clauses))"
    by (simp add: simplify_measure first_unassigned_Some)
qed

declare dpll_rec.simps [simp del]

termination dpll_trace
proof (relation "measure (\<lambda>(clauses, model). card (vars_of clauses))")
  show "wf (measure (\<lambda>(clauses, model). card (vars_of clauses)))" by simp
next
  fix clauses :: formula and model :: "int set" and x2
  assume "unit_clause clauses model = Some x2"
  then show "((simplify clauses \<bar>x2\<bar> (0 < x2), model \<union> {x2}), clauses, model)
        \<in> measure (\<lambda>(clauses, model). card (vars_of clauses))"
    by (simp add: simplify_measure unit_clause_Some)
next
  fix clauses :: formula and model :: "int set" and x2
  assume "pure_literal clauses model = Some x2"
  then show "((simplify clauses \<bar>x2\<bar> (0 < x2), model \<union> {x2}), clauses, model)
        \<in> measure (\<lambda>(clauses, model). card (vars_of clauses))"
    by (simp add: simplify_measure pure_literal_Some)
next
  fix clauses :: formula and model :: "int set" and x2
  assume "first_unassigned clauses model = Some x2"
  then show "((simplify clauses \<bar>x2\<bar> True, model \<union> {\<bar>x2\<bar>}), clauses, model)
        \<in> measure (\<lambda>(clauses, model). card (vars_of clauses))"
    by (simp add: simplify_measure first_unassigned_Some)
next
  fix clauses :: formula and model :: "int set" and x2
  assume "first_unassigned clauses model = Some x2"
  then show "((simplify clauses \<bar>x2\<bar> False, model \<union> {- \<bar>x2\<bar>}), clauses, model)
        \<in> measure (\<lambda>(clauses, model). card (vars_of clauses))"
    by (simp add: simplify_measure first_unassigned_Some)
qed

declare dpll_trace.simps [simp del]

lemma dpll_rec_sat: "all_true clauses model \<Longrightarrow> dpll_rec clauses model = Some model"
  by (simp add: dpll_rec.simps[of clauses model])

lemma dpll_rec_conflict:
  "\<not> all_true clauses model \<Longrightarrow> some_false clauses model \<Longrightarrow> dpll_rec clauses model = None"
  by (simp add: dpll_rec.simps[of clauses model])

lemma dpll_rec_unit:
  "\<not> all_true clauses model \<Longrightarrow> \<not> some_false clauses model \<Longrightarrow>
   unit_clause clauses model = Some unit \<Longrightarrow>
   dpll_rec clauses model = dpll_rec (simplify clauses \<bar>unit\<bar> (unit > 0)) (model \<union> {unit})"
  by (simp add: dpll_rec.simps[of clauses model])

lemma dpll_rec_pure:
  "\<not> all_true clauses model \<Longrightarrow> \<not> some_false clauses model \<Longrightarrow>
   unit_clause clauses model = None \<Longrightarrow> pure_literal clauses model = Some pure \<Longrightarrow>
   dpll_rec clauses model = dpll_rec (simplify clauses \<bar>pure\<bar> (pure > 0)) (model \<union> {pure})"
  by (simp add: dpll_rec.simps[of clauses model])

lemma dpll_rec_branch:
  "\<not> all_true clauses model \<Longrightarrow> \<not> some_false clauses model \<Longrightarrow>
   unit_clause clauses model = None \<Longrightarrow> pure_literal clauses model = None \<Longrightarrow>
   first_unassigned clauses model = Some lit \<Longrightarrow>
   dpll_rec clauses model =
     (case dpll_rec (simplify clauses \<bar>lit\<bar> True) (model \<union> {\<bar>lit\<bar>}) of
        Some res \<Rightarrow> Some res
      | None \<Rightarrow> dpll_rec (simplify clauses \<bar>lit\<bar> False) (model \<union> {- \<bar>lit\<bar>}))"
  by (simp add: dpll_rec.simps[of clauses model])

lemma dpll_rec_stuck:
  "\<not> all_true clauses model \<Longrightarrow> \<not> some_false clauses model \<Longrightarrow>
   unit_clause clauses model = None \<Longrightarrow> pure_literal clauses model = None \<Longrightarrow>
   first_unassigned clauses model = None \<Longrightarrow> dpll_rec clauses model = None"
  by (simp add: dpll_rec.simps[of clauses model])

lemma dpll_trace_leaf:
  "all_true clauses model \<or> some_false clauses model \<Longrightarrow> snd (dpll_trace clauses model) = []"
  by (auto simp: dpll_trace.simps[of clauses model])

lemma dpll_trace_leaf_fst:
  "all_true clauses model \<or> some_false clauses model \<Longrightarrow>
   fst (dpll_trace clauses model) = (if all_true clauses model then Some model else None)"
  by (auto simp: dpll_trace.simps[of clauses model])

lemma dpll_trace_unit:
  "\<not> all_true clauses model \<Longrightarrow> \<not> some_false clauses model \<Longrightarrow>
   unit_clause clauses model = Some unit \<Longrightarrow>
   dpll_trace clauses model =
     (fst (dpll_trace (simplify clauses \<bar>unit\<bar> (unit > 0)) (model \<union> {unit})),
      (model, unit) # snd (dpll_trace (simplify clauses \<bar>unit\<bar> (unit > 0)) (model \<union> {unit})))"
  by (simp add: dpll_trace.simps[of clauses model] split: prod.splits)

lemma dpll_trace_pure:
  "\<not> all_true clauses model \<Longrightarrow> \<not> some_false clauses model \<Longrightarrow>
   unit_clause clauses model = None \<Longrightarrow> pure_literal clauses model = Some pure \<Longrightarrow>
   dpll_trace clauses model =
     (fst (dpll_trace (simplify clauses \<bar>pure\<bar> (pure > 0)) (model \<union> {pure})),
      (model, pure) # snd (dpll_trace (simplify clauses \<bar>pure\<bar> (pure > 0)) (model \<union> {pure})))"
  by (simp add: dpll_trace.simps[of clauses model] split: prod.splits)

lemma dpll_trace_branch:
  "\<not> all_true clauses model \<Longrightarrow> \<not> some_false clauses model \<Longrightarrow>
   unit_clause clauses model = None \<Longrightarrow> pure_literal clauses model = None \<Longrightarrow>
   first_unassigned clauses model = Some lit \<Longrightarrow>
   dpll_trace clauses model =
     (case fst (dpll_trace (simplify clauses \<bar>lit\<bar> True) (model \<union> {\<bar>lit\<bar>})) of
        Some res \<Rightarrow>
          (Some res,
           (model, \<bar>lit\<bar>) # snd (dpll_trace (simplify clauses \<bar>lit\<bar> True) (model \<union> {\<bar>lit\<bar>})))
      | None \<Rightarrow>
          (fst (dpll_trace (simplify clauses \<bar>lit\<bar> False) (model \<union> {- \<bar>lit\<bar>})),
           (model, \<bar>lit\<bar>) # snd (dpll_trace (simplify clauses \<bar>lit\<bar> True) (model \<union> {\<bar>lit\<bar>})) @
           (model, - \<bar>lit\<bar>) # snd (dpll_trace (simplify clauses \<bar>lit\<bar> False) (model \<union> {- \<bar>lit\<bar>}))))"
  by (simp add: dpll_trace.simps[of clauses model] split: prod.splits option.splits)

lemma dpll_trace_stuck:
  "\<not> all_true clauses model \<Longrightarrow> \<not> some_false clauses model \<Longrightarrow>
   unit_clause clauses model = None \<Longrightarrow> pure_literal clauses model = None \<Longrightarrow>
   first_unassigned clauses model = None \<Longrightarrow> dpll_trace clauses model = (None, [])"
  by (simp add: dpll_trace.simps[of clauses model])

lemma dpll_trace_result: "fst (dpll_trace clauses model) = dpll_rec clauses model"
proof (induction clauses model rule: dpll_rec.induct)
  case (1 clauses model)
  show ?case
  proof (cases "all_true clauses model \<or> some_false clauses model")
    case True
    then show ?thesis
      by (auto simp: dpll_trace_leaf_fst dpll_rec_sat dpll_rec_conflict)
  next
    case False
    then have g: "\<not> all_true clauses model" "\<not> some_false clauses model" by auto
    show ?thesis
    proof (cases "unit_clause clauses model")
      case (Some unit)
      from "1.IH"(4)[OF g Some] show ?thesis
        by (simp add: dpll_trace_unit[OF g Some] dpll_rec_unit[OF g Some])
    next
      case None
      note u = this
      show ?thesis
      proof (cases "pure_literal clauses model")
        case (Some pure)
        from "1.IH"(3)[OF g u Some] show ?thesis
          by (simp add: dpll_trace_pure[OF g u Some] dpll_rec_pure[OF g u Some])
      next
        case None
        note p = this
        show ?thesis
        proof (cases "first_unassigned clauses model")
          case None
          then show ?thesis
            by (simp add: dpll_trace_stuck[OF g u p] dpll_rec_stuck[OF g u p])
        next
          case (Some lit)
          note ih1 = "1.IH"(1)[OF g u p Some]
          show ?thesis
          proof (cases "dpll_rec (simplify clauses \<bar>lit\<bar> True) (model \<union> {\<bar>lit\<bar>})")
            case None
            note ih2 = "1.IH"(2)[OF g u p Some None]
            from ih1 ih2 None show ?thesis
              by (simp add: dpll_trace_branch[OF g u p Some] dpll_rec_branch[OF g u p Some])
          next
            case (Some res)
            with ih1 show ?thesis
              by (simp add: dpll_trace_branch[OF g u p \<open>first_unassigned clauses model = Some lit\<close>]
                    dpll_rec_branch[OF g u p \<open>first_unassigned clauses model = Some lit\<close>])
          qed
        qed
      qed
    qed
  qed
qed

lemma consistent_insert:
  "consistent m \<Longrightarrow> l \<notin> m \<Longrightarrow> - l \<notin> m \<Longrightarrow> consistent (insert l m)"
  unfolding consistent_def by (metis add.inverse_inverse insert_iff neg_equal_zero)

lemma abs_unassigned: "(l::int) \<notin> m \<Longrightarrow> - l \<notin> m \<Longrightarrow> \<bar>l\<bar> \<notin> m \<and> - \<bar>l\<bar> \<notin> m"
  by (cases "l < 0") auto

lemma extension_ok_mono: "extension_ok (insert l M) e \<Longrightarrow> extension_ok M e"
  by (auto simp: extension_ok_def)

lemma dpll_trace_extensions:
  "consistent model \<Longrightarrow> e \<in> set (snd (dpll_trace clauses model)) \<Longrightarrow> extension_ok model e"
proof (induction clauses model rule: dpll_trace.induct)
  case (1 clauses model)
  note c = "1.prems"(1)
  have here: "extension_ok model (model, l)" if "l \<notin> model" "- l \<notin> model" for l
    using that c by (simp add: extension_ok_def consistent_insert)
  show ?case
  proof (cases "all_true clauses model \<or> some_false clauses model")
    case True
    with "1.prems"(2) show ?thesis by (simp add: dpll_trace_leaf)
  next
    case False
    then have g: "\<not> all_true clauses model" "\<not> some_false clauses model" by auto
    show ?thesis
    proof (cases "unit_clause clauses model")
      case (Some unit)
      from unit_clause_Some[OF Some] have un: "unit \<notin> model" "- unit \<notin> model" by auto
      from "1.prems"(2)
      have "e = (model, unit) \<or> e \<in> set (snd (dpll_trace (simplify clauses \<bar>unit\<bar> (unit > 0)) (model \<union> {unit})))"
        by (simp add: dpll_trace_unit[OF g Some])
      then show ?thesis
      proof
        assume "e = (model, unit)" with here[OF un] show ?thesis by simp
      next
        assume "e \<in> set (snd (dpll_trace (simplify clauses \<bar>unit\<bar> (unit > 0)) (model \<union> {unit})))"
        from "1.IH"(4)[OF g Some _ this] consistent_insert[OF c un]
        show ?thesis by (auto intro: extension_ok_mono)
      qed
    next
      case None
      note u = this
      show ?thesis
      proof (cases "pure_literal clauses model")
        case (Some pure)
        from pure_literal_Some[OF Some] have un: "pure \<notin> model" "- pure \<notin> model" by auto
        from "1.prems"(2)
        have "e = (model, pure) \<or> e \<in> set (snd (dpll_trace (simplify clauses \<bar>pure\<bar> (pure > 0)) (model \<union> {pure})))"
          by (simp add: dpll_trace_pure[OF g u Some])
        then show ?thesis
        proof
          assume "e = (model, pure)" with here[OF un] show ?thesis by simp
        next
          assume "e \<in> set (snd (dpll_trace (simplify clauses \<bar>pure\<bar> (pure > 0)) (model \<union> {pure})))"
          from "1.IH"(3)[OF g u Some _ this] consistent_insert[OF c un]
          show ?thesis by (auto intro: extension_ok_mono)
        qed
      next
        case None
        note p = this
        show ?thesis
        proof (cases "first_unassigned clauses model")
          case None
          with "1.prems"(2) show ?thesis by (simp add: dpll_trace_stuck[OF g u p])
        next
          case (Some lit)
          note f = this
          from first_unassigned_Some[OF Some] have "lit \<notin> model" "- lit \<notin> model" by auto
          from abs_unassigned[OF this] have un: "\<bar>lit\<bar> \<notin> model" "- \<bar>lit\<bar> \<notin> model" by auto
          then have un': "- \<bar>lit\<bar> \<notin> model" "- (- \<bar>lit\<bar>) \<notin> model" by auto
          let ?t1 = "snd (dpll_trace (simplify clauses \<bar>lit\<bar> True) (model \<union> {\<bar>lit\<bar>}))"
          let ?t2 = "snd (dpll_trace (simplify clauses \<bar>lit\<bar> False) (model \<union> {- \<bar>lit\<bar>}))"
          have ih1: "e \<in> set ?t1 \<Longrightarrow> extension_ok model e"
            using "1.IH"(1)[OF g u p f] consistent_insert[OF c un]
            by (auto intro: extension_ok_mono)
          show ?thesis
          proof (cases "fst (dpll_trace (simplify clauses \<bar>lit\<bar> True) (model \<union> {\<bar>lit\<bar>}))")
            case (Some res)
            from "1.prems"(2)[unfolded dpll_trace_branch[OF g u p f] Some]
            have "e = (model, \<bar>lit\<bar>) \<or> e \<in> set ?t1" by simp
            with here[OF un] ih1 show ?thesis by auto
          next
            case None
            have "dpll_trace (simplify clauses \<bar>lit\<bar> True) (model \<union> {\<bar>lit\<bar>}) = (None, ?t1)"
              using None by (metis prod.collapse)
            from "1.IH"(2)[OF g u p f this[symmetric] refl] consistent_insert[OF c un']
            have ih2: "e \<in> set ?t2 \<Longrightarrow> extension_ok model e"
              by (auto intro: extension_ok_mono)
            from "1.prems"(2)[unfolded dpll_trace_branch[OF g u p f] None]
            have "e = (model, \<bar>lit\<bar>) \<or> e \<in> set ?t1 \<or> e = (model, - \<bar>lit\<bar>) \<or> e \<in> set ?t2"
              by auto
            with here[OF un] here[OF un'] ih1 ih2 show ?thesis by auto
          qed
        qed
      qed
    qed
  qed
qed

subsection \<open>Resolution rounds\<close>

lemma valid_sorted_lits: "valid_lit_order sorted_lits"
  by (simp add: valid_lit_order_def sorted_lits_def)

lemma valid_sorted_clauses: "valid_clause_order sorted_clauses"
  unfolding valid_clause_order_def
proof (intro allI impI conjI)
  fix W :: "int set set" assume fc: "finite_clauses W"
  then have f: "finite W" and fin: "\<And>c. c \<in> W \<Longrightarrow> finite c" by (auto simp: finite_clauses_def)
  have "set (sorted_clauses W) = (\<lambda>c. set (sorted_list_of_set c)) ` W"
    using f by (simp add: sorted_clauses_def image_image)
  also have "\<dots> = W" using fin by (auto simp: image_iff)
  finally show "set (sorted_clauses W) = W" .
  have "inj_on set (sorted_list_of_set ` W)"
  proof (rule inj_onI)
    fix x y assume "x \<in> sorted_list_of_set ` W" "y \<in> sorted_list_of_set ` W" "set x = set y"
    then show "x = y" using fin by auto
  qed
  then show "distinct (sorted_clauses W)"
    using f by (simp add: sorted_clauses_def distinct_map)
qed

lemma resolve_pair_loop_None:
  "resolve_pair_loop ls c1 c2 = None \<longleftrightarrow> (\<forall>l\<in>set ls. - l \<notin> c2)"
  by (induction ls) auto

lemma resolve_pair_loop_Some:
  "resolve_pair_loop ls c1 c2 = Some r \<Longrightarrow> \<exists>l\<in>set ls. - l \<in> c2 \<and> r = (c1 \<union> c2) - {l, - l}"
  by (induction ls) (auto split: if_splits)

lemma resolve_pair_None:
  "valid_lit_order lo \<Longrightarrow> finite c1 \<Longrightarrow>
   resolve_pair lo c1 c2 = None \<longleftrightarrow> (\<forall>l\<in>c1. - l \<notin> c2)"
  by (simp add: resolve_pair_def resolve_pair_loop_None valid_lit_order_def)

lemma resolve_pair_Some:
  "valid_lit_order lo \<Longrightarrow> finite c1 \<Longrightarrow> resolve_pair lo c1 c2 = Some r \<Longrightarrow>
   \<exists>l\<in>c1. - l \<in> c2 \<and> r = (c1 \<union> c2) - {l, - l}"
  unfolding resolve_pair_def valid_lit_order_def
  by (drule resolve_pair_loop_Some) auto

lemma inner_loop_None:
  "inner_loop lo c1 cs new = None \<longleftrightarrow> (\<exists>c2\<in>set cs. resolve_pair lo c1 c2 = Some {})"
  by (induction cs arbitrary: new) (auto split: option.splits)

lemma inner_loop_Some:
  "inner_loop lo c1 cs new = Some new' \<Longrightarrow>
   new' = new \<union> {r. \<exists>c2\<in>set cs. resolve_pair lo c1 c2 = Some r}"
  by (induction cs arbitrary: new) (auto split: option.splits if_splits)

lemma outer_loop_None:
  "outer_loop lo cs new = None \<longleftrightarrow> (\<exists>(c1, c2)\<in>set (pairs_of cs). resolve_pair lo c1 c2 = Some {})"
proof (induction cs arbitrary: new)
  case Nil
  then show ?case by simp
next
  case (Cons c cs)
  show ?case
  proof (cases "inner_loop lo c cs new")
    case None
    then obtain c2 where "c2 \<in> set cs" "resolve_pair lo c c2 = Some {}"
      by (auto simp: inner_loop_None)
    then have "\<exists>(c1, c2)\<in>set (pairs_of (c # cs)). resolve_pair lo c1 c2 = Some {}" by auto
    with None show ?thesis by simp
  next
    case (Some n1)
    then have "\<not> (\<exists>c2\<in>set cs. resolve_pair lo c c2 = Some {})"
      using inner_loop_None[of lo c cs new] by simp
    then have "(\<exists>(c1, c2)\<in>set (pairs_of (c # cs)). resolve_pair lo c1 c2 = Some {}) \<longleftrightarrow>
         (\<exists>(c1, c2)\<in>set (pairs_of cs). resolve_pair lo c1 c2 = Some {})" by auto
    with Some Cons.IH[of n1] show ?thesis by simp
  qed
qed

lemma outer_loop_Some:
  "outer_loop lo cs new = Some new' \<Longrightarrow>
   new' = new \<union> {r. \<exists>(c1, c2)\<in>set (pairs_of cs). resolve_pair lo c1 c2 = Some r}"
proof (induction cs arbitrary: new)
  case Nil
  then show ?case by simp
next
  case (Cons c cs)
  from Cons.prems obtain n1 where n1: "inner_loop lo c cs new = Some n1" "outer_loop lo cs n1 = Some new'"
    by (auto split: option.splits)
  from inner_loop_Some[OF n1(1)] Cons.IH[OF n1(2)] show ?case by auto
qed

lemma pairs_of_mem: "(a, b) \<in> set (pairs_of cs) \<Longrightarrow> a \<in> set cs \<and> b \<in> set cs"
  by (induction cs) auto

lemma pairs_of_distinct: "distinct cs \<Longrightarrow> (a, b) \<in> set (pairs_of cs) \<Longrightarrow> a \<noteq> b"
  by (induction cs) (auto dest: pairs_of_mem)

lemma pairs_of_total:
  "a \<in> set cs \<Longrightarrow> b \<in> set cs \<Longrightarrow> a \<noteq> b \<Longrightarrow>
   (a, b) \<in> set (pairs_of cs) \<or> (b, a) \<in> set (pairs_of cs)"
  by (induction cs) auto

lemma round_step_False:
  "round_step lo co W = Verdict False \<longleftrightarrow>
   (\<exists>(c1, c2)\<in>set (pairs_of (co W)). resolve_pair lo c1 c2 = Some {})"
proof (cases "outer_loop lo (co W) {}")
  case None
  then show ?thesis using outer_loop_None[of lo "co W" "{}"] by (simp add: round_step_def)
next
  case (Some new)
  then show ?thesis using outer_loop_None[of lo "co W" "{}"] by (simp add: round_step_def)
qed

lemma outer_loop_round_new:
  "outer_loop lo (co W) {} = Some new \<Longrightarrow> new = round_new lo co W"
  by (drule outer_loop_Some) (simp add: round_new_def)

lemma round_step_True:
  "round_step lo co W = Verdict True \<longleftrightarrow>
   {} \<notin> round_new lo co W \<and> round_new lo co W \<subseteq> W"
proof (cases "outer_loop lo (co W) {}")
  case None
  then have "{} \<in> round_new lo co W"
    using outer_loop_None[of lo "co W" "{}"] by (simp add: round_new_def)
  with None show ?thesis by (simp add: round_step_def)
next
  case (Some new)
  then have "{} \<notin> round_new lo co W"
    using outer_loop_None[of lo "co W" "{}"] by (simp add: round_new_def)
  with Some outer_loop_round_new[of lo co W new] show ?thesis by (simp add: round_step_def)
qed

lemma round_step_Continue:
  "round_step lo co W = Continue W' \<Longrightarrow>
   W' = W \<union> round_new lo co W \<and> \<not> round_new lo co W \<subseteq> W \<and> {} \<notin> round_new lo co W"
proof (cases "outer_loop lo (co W) {}")
  case None
  assume "round_step lo co W = Continue W'"
  with None show ?thesis by (simp add: round_step_def)
next
  case (Some new)
  assume a: "round_step lo co W = Continue W'"
  have "{} \<notin> round_new lo co W"
    using Some outer_loop_None[of lo "co W" "{}"] by (simp add: round_new_def)
  with a Some outer_loop_round_new[of lo co W new] show ?thesis
    by (auto simp: round_step_def split: if_splits)
qed

lemma round_new_sub:
  assumes "valid_lit_order lo" "valid_clause_order co" "finite_clauses W" "r \<in> round_new lo co W"
  shows "\<exists>c1\<in>W. \<exists>c2\<in>W. c1 \<noteq> c2 \<and> (\<exists>l\<in>c1. - l \<in> c2 \<and> r = (c1 \<union> c2) - {l, - l})"
proof -
  from assms(4) obtain c1 c2 where p: "(c1, c2) \<in> set (pairs_of (co W))" "resolve_pair lo c1 c2 = Some r"
    by (auto simp: round_new_def)
  from assms(2,3) have co: "set (co W) = W" "distinct (co W)" by (auto simp: valid_clause_order_def)
  from pairs_of_mem[OF p(1)] co have m: "c1 \<in> W" "c2 \<in> W" by auto
  from pairs_of_distinct[OF co(2) p(1)] have "c1 \<noteq> c2" .
  moreover from m assms(3) have "finite c1" by (simp add: finite_clauses_def)
  from resolve_pair_Some[OF assms(1) this p(2)] have "\<exists>l\<in>c1. - l \<in> c2 \<and> r = (c1 \<union> c2) - {l, - l}" .
  ultimately show ?thesis using m by blast
qed

lemma round_new_Pow:
  assumes "valid_lit_order lo" "valid_clause_order co" "finite_clauses W"
  shows "round_new lo co W \<subseteq> Pow (\<Union>W)"
proof
  fix r assume "r \<in> round_new lo co W"
  from round_new_sub[OF assms this] show "r \<in> Pow (\<Union>W)" by blast
qed

lemma finite_Union_clauses: "finite_clauses W \<Longrightarrow> finite (\<Union>W)"
  by (auto simp: finite_clauses_def)

lemma finite_clauses_step:
  assumes "valid_lit_order lo" "valid_clause_order co" "finite_clauses W"
  shows "finite_clauses (W \<union> round_new lo co W)"
proof -
  have fP: "finite (Pow (\<Union>W))" using finite_Union_clauses[OF assms(3)] by simp
  have "finite (round_new lo co W)" using round_new_Pow[OF assms] fP by (rule finite_subset)
  moreover have "finite r" if "r \<in> round_new lo co W" for r
  proof -
    from that round_new_Pow[OF assms] have "r \<subseteq> \<Union>W" by blast
    then show ?thesis using finite_Union_clauses[OF assms(3)] by (rule finite_subset)
  qed
  ultimately show ?thesis using assms(3) by (auto simp: finite_clauses_def)
qed

lemma working_set_snoc:
  "working_set lo co W n = Some Wn \<Longrightarrow> round_step lo co Wn = Continue W' \<Longrightarrow>
   working_set lo co W (Suc n) = Some W'"
  by (induction lo co W n rule: working_set.induct) (auto split: round_result.splits)

lemma resolution_loop_run:
  assumes "valid_lit_order lo" "valid_clause_order co" "finite_clauses W"
  shows "\<exists>b n Wn. resolution_loop lo co W = Some b \<and> working_set lo co W n = Some Wn \<and>
           round_step lo co Wn = Verdict b"
  using assms(3)
proof (induction "card (Pow (\<Union>W) - W)" arbitrary: W rule: less_induct)
  case less
  show ?case
  proof (cases "round_step lo co W")
    case (Verdict b)
    then have "resolution_loop lo co W = Some b" by (subst resolution_loop.simps) simp
    moreover have "working_set lo co W 0 = Some W" by simp
    ultimately show ?thesis using Verdict by blast
  next
    case (Continue W')
    from round_step_Continue[OF Continue]
    have W': "W' = W \<union> round_new lo co W" and ns: "\<not> round_new lo co W \<subseteq> W" by auto
    have fc': "finite_clauses W'" unfolding W' by (rule finite_clauses_step[OF assms(1,2) less.prems])
    have sub: "round_new lo co W \<subseteq> Pow (\<Union>W)" by (rule round_new_Pow[OF assms(1,2) less.prems])
    have U: "\<Union>W' = \<Union>W" unfolding W' using sub by auto
    have fP: "finite (Pow (\<Union>W) - W)" using finite_Union_clauses[OF less.prems] by simp
    have "Pow (\<Union>W') - W' \<subset> Pow (\<Union>W) - W" unfolding U using ns sub unfolding W' by blast
    then have "card (Pow (\<Union>W') - W') < card (Pow (\<Union>W) - W)" using fP by (rule psubset_card_mono[rotated])
    from less.hyps[OF this fc'] obtain b n Wn where
      r: "resolution_loop lo co W' = Some b" "working_set lo co W' n = Some Wn"
         "round_step lo co Wn = Verdict b" by blast
    have "resolution_loop lo co W = Some b"
      by (subst resolution_loop.simps) (simp add: Continue r(1))
    moreover have "working_set lo co W (Suc n) = Some Wn" using Continue r(2) by simp
    ultimately show ?thesis using r(3) by blast
  qed
qed

lemma working_set_mono:
  "working_set lo co W n = Some Wn \<Longrightarrow> W \<subseteq> Wn"
proof (induction lo co W n rule: working_set.induct)
  case (1 lo co W)
  then show ?case by simp
next
  case (2 lo co W n)
  then obtain W' where c: "round_step lo co W = Continue W'" and w: "working_set lo co W' n = Some Wn"
    by (auto split: round_result.splits)
  from round_step_Continue[OF c] have "W \<subseteq> W'" by auto
  with "2.IH"[OF c w] show ?case by auto
qed

lemma working_set_finite:
  assumes "valid_lit_order lo" "valid_clause_order co"
  shows "working_set lo co W n = Some Wn \<Longrightarrow> finite_clauses W \<Longrightarrow> finite_clauses Wn"
proof (induction n arbitrary: W)
  case 0
  then show ?case by simp
next
  case (Suc n)
  then obtain W' where c: "round_step lo co W = Continue W'" and w: "working_set lo co W' n = Some Wn"
    by (auto split: round_result.splits)
  from round_step_Continue[OF c] finite_clauses_step[OF assms Suc.prems(2)]
  have "finite_clauses W'" by auto
  from Suc.IH[OF w this] show ?case .
qed

lemma finite_clauses_input: "finite_clauses (set (map set F))"
  by (auto simp: finite_clauses_def)

lemma round_step_False_new:
  "round_step lo co W = Verdict False \<longleftrightarrow> {} \<in> round_new lo co W"
  by (simp add: round_step_False round_new_def)

lemma round_has_resolvent:
  assumes "valid_lit_order lo" "valid_clause_order co" "finite_clauses W"
    and "c1 \<in> W" "c2 \<in> W" "c1 \<noteq> c2" "l \<in> c1" "- l \<in> c2"
  shows "\<exists>m. m \<in> c1 \<and> - m \<in> c2 \<and> (c1 \<union> c2) - {m, - m} \<in> round_new lo co W"
proof -
  from assms(2,3) have co: "set (co W) = W" by (auto simp: valid_clause_order_def)
  from assms(3,4,5) have fin: "finite c1" "finite c2" by (auto simp: finite_clauses_def)
  from pairs_of_total[of c1 "co W" c2] co assms(4,5,6)
  have "(c1, c2) \<in> set (pairs_of (co W)) \<or> (c2, c1) \<in> set (pairs_of (co W))" by simp
  then show ?thesis
  proof
    assume p: "(c1, c2) \<in> set (pairs_of (co W))"
    have "resolve_pair lo c1 c2 \<noteq> None"
      using resolve_pair_None[OF assms(1) fin(1), of c2] assms(7,8) by auto
    then obtain r where r: "resolve_pair lo c1 c2 = Some r" by auto
    from resolve_pair_Some[OF assms(1) fin(1) r] obtain m where
      m: "m \<in> c1" "- m \<in> c2" "r = (c1 \<union> c2) - {m, - m}" by auto
    from p r have "r \<in> round_new lo co W" by (auto simp: round_new_def)
    with m show ?thesis by auto
  next
    assume p: "(c2, c1) \<in> set (pairs_of (co W))"
    have "resolve_pair lo c2 c1 \<noteq> None"
      using resolve_pair_None[OF assms(1) fin(2), of c1] assms(7,8) by force
    then obtain r where r: "resolve_pair lo c2 c1 = Some r" by auto
    from resolve_pair_Some[OF assms(1) fin(2) r] obtain m where
      m: "m \<in> c2" "- m \<in> c1" "r = (c2 \<union> c1) - {m, - m}" by auto
    from p r have rn: "r \<in> round_new lo co W" by (auto simp: round_new_def)
    have "(c1 \<union> c2) - {- m, - (- m)} = r" using m(3) by auto
    with m(1,2) rn show ?thesis by (intro exI[of _ "- m"]) simp
  qed
qed

lemma saturated_closed:
  assumes "valid_lit_order lo" "valid_clause_order co" "finite_clauses S"
    and "round_step lo co S = Verdict True"
    and "c1 \<in> S" "c2 \<in> S" "c1 \<noteq> c2" "l \<in> c1" "- l \<in> c2"
  shows "\<exists>m. m \<in> c1 \<and> - m \<in> c2 \<and> (c1 \<union> c2) - {m, - m} \<in> S \<and> (c1 \<union> c2) - {m, - m} \<noteq> {}"
proof -
  from round_has_resolvent[OF assms(1,2,3,5,6,7,8,9)] obtain m where
    m: "m \<in> c1" "- m \<in> c2" "(c1 \<union> c2) - {m, - m} \<in> round_new lo co S" by blast
  from assms(4) have "{} \<notin> round_new lo co S" "round_new lo co S \<subseteq> S"
    by (simp_all add: round_step_True)
  with m(3) have "(c1 \<union> c2) - {m, - m} \<in> S" "(c1 \<union> c2) - {m, - m} \<noteq> {}"
    by (blast, metis)
  with m(1,2) show ?thesis by blast
qed

lemma classic_instance_not_saturated:
  assumes v: "valid_lit_order lo" "valid_clause_order co" and f: "finite_clauses S"
    and t: "round_step lo co S = Verdict True"
    and a: "{1, 2} \<in> S" and b: "{- 1, - 2} \<in> S"
  shows False
proof -
  note cl = saturated_closed[OF v f t]
  have unit_clash: False if "{x} \<in> S" "{- x} \<in> S" "x \<noteq> 0" for x :: int
  proof -
    from that(3) have "{x} \<noteq> {- x}" by auto
    from cl[OF that(1,2) this, of x] obtain k where "k \<in> {x}" "({x} \<union> {- x}) - {k, - k} \<noteq> {}"
      by auto
    then show False by auto
  qed
  have via_taut: False if t: "{x, - x} \<in> S" and p: "{x, y} \<in> S" and n: "{- x, - y} \<in> S"
    and d: "x \<noteq> 0" "y \<noteq> 0" "x \<noteq> y" "x \<noteq> - y" for x y :: int
  proof -
    have ne1: "{x, - x} \<noteq> {x, y}" using d by (auto simp: doubleton_eq_iff)
    have "- x \<in> {x, - x}" "- (- x) \<in> {x, y}" by simp_all
    from cl[OF t p ne1 this] obtain k where k: "k \<in> {x, - x}" "- k \<in> {x, y}"
      "({x, - x} \<union> {x, y}) - {k, - k} \<in> S" by blast
    from k(1,2) d have "k = - x" by auto
    moreover have "({x, - x} \<union> {x, y}) - {- x, - (- x)} = {y}" using d by auto
    ultimately have y: "{y} \<in> S" using k(3) by simp
    have ne2: "{x, - x} \<noteq> {- x, - y}" using d by (auto simp: doubleton_eq_iff)
    have "x \<in> {x, - x}" "- x \<in> {- x, - y}" by simp_all
    from cl[OF t n ne2 this] obtain k where k: "k \<in> {x, - x}" "- k \<in> {- x, - y}"
      "({x, - x} \<union> {- x, - y}) - {k, - k} \<in> S" by blast
    from k(1,2) d have "k = x" by auto
    moreover have "({x, - x} \<union> {- x, - y}) - {x, - x} = {- y}" using d by auto
    ultimately have "{- y} \<in> S" using k(3) by simp
    with y unit_clash[of y] d show False by simp
  qed
  have ne: "{1, 2} \<noteq> {- 1, - (2::int)}" by (simp add: doubleton_eq_iff)
  have "(1::int) \<in> {1, 2}" "- (1::int) \<in> {- 1, - 2}" by simp_all
  from cl[OF a b ne this] obtain m where m: "m \<in> {1, 2::int}"
    and r: "({1, 2} \<union> {- 1, - 2}) - {m, - m} \<in> S" by blast
  from m consider "m = 1" | "m = 2" by auto
  then show False
  proof cases
    case 1
    have "({1, 2} \<union> {- 1, - 2}) - {1, - 1} = {2, - 2::int}" by auto
    with r 1 have "{2, - 2} \<in> S" by simp
    moreover have "{2, 1} \<in> S" "{- 2, - 1} \<in> S" using a b by (simp_all add: insert_commute)
    ultimately show False using via_taut[of 2 1] by simp
  next
    case 2
    have "({1, 2} \<union> {- 1, - 2}) - {2, - 2} = {1, - 1::int}" by auto
    with r 2 have "{1, - 1} \<in> S" by simp
    with a b show False using via_taut[of 1 2] by simp
  qed
qed

lemma resolution_classic_instance:
  assumes v: "valid_lit_order lo" "valid_clause_order co"
  shows "resolution lo co [[1, 2], [- 1, - 2]] = Some False"
proof -
  let ?W = "set (map set [[1, 2], [- 1, - 2::int]])"
  have fc: "finite_clauses ?W" by (rule finite_clauses_input)
  from resolution_loop_run[OF v fc] obtain b n Wn where
    r: "resolution_loop lo co ?W = Some b" "working_set lo co ?W n = Some Wn"
       "round_step lo co Wn = Verdict b" by blast
  have "\<not> b"
  proof
    assume b
    with r(3) have t: "round_step lo co Wn = Verdict True" by simp
    from working_set_mono[OF r(2)] have "{1, 2} \<in> Wn" "{- 1, - 2} \<in> Wn" by auto
    from classic_instance_not_saturated[OF v working_set_finite[OF v r(2) fc] t this]
    show False .
  qed
  with r(1) show ?thesis by (simp add: resolution_def)
qed

declare resolution_loop.simps [code]

lemma unit_propagate_loop_eq:
  "unit_propagate_loop cs u new =
     (if unit_conflict cs u then [[]]
      else new @ map (filter (\<lambda>lit. lit \<noteq> - u)) (filter (\<lambda>c. u \<notin> set c) cs))"
proof (induction cs u new rule: unit_propagate_loop.induct)
  case (1 unit new)
  then show ?case by (simp add: unit_conflict_def)
next
  case (2 c cs unit new)
  show ?case
  proof (cases "unit \<in> set c")
    case True
    then have "unit_conflict (c # cs) unit = unit_conflict cs unit" by (simp add: unit_conflict_def)
    with True "2.IH"(1)[OF True] show ?thesis by simp
  next
    case False
    note nu = this
    show ?thesis
    proof (cases "- unit \<in> set c")
      case True
      show ?thesis
      proof (cases "filter (\<lambda>lit. lit \<noteq> - unit) c = []")
        case True
        with nu \<open>- unit \<in> set c\<close> have "unit_conflict (c # cs) unit" by (simp add: unit_conflict_def)
        with nu \<open>- unit \<in> set c\<close> True show ?thesis by simp
      next
        case False
        with nu have "unit_conflict (c # cs) unit = unit_conflict cs unit"
          by (simp add: unit_conflict_def)
        with nu \<open>- unit \<in> set c\<close> False "2.IH"(2)[OF nu \<open>- unit \<in> set c\<close> refl False]
        show ?thesis by (simp add: Let_def)
      qed
    next
      case False
      then have id: "filter (\<lambda>lit. lit \<noteq> - unit) c = c" by (auto simp: filter_id_conv)
      from False have "unit_conflict (c # cs) unit = unit_conflict cs unit"
        by (simp add: unit_conflict_def)
      with nu False id "2.IH"(3)[OF nu False] show ?thesis by simp
    qed
  qed
qed

lemma dp_eliminate_unit_step:
  assumes "[] \<notin> set clauses" "clauses \<noteq> []" "find_pure_literal clauses = None"
    "find_unit_clause clauses = Some u"
  shows "dp_eliminate clauses = dp_eliminate (unit_propagate clauses u)"
proof -
  from assms(1) have "\<not> (\<exists>c\<in>set clauses. length c = 0)" by auto
  with assms(2,3,4) show ?thesis by (simp add: dp_eliminate.simps[of clauses])
qed

lemma dp_eliminate_empty_clause: "[] \<in> set clauses \<Longrightarrow> dp_eliminate clauses = False"
  by (subst dp_eliminate.simps) auto

lemma find_pure_literal_ex1: "find_pure_literal [[1], [- 1]] = None"
  by (simp add: find_pure_literal_def polarities_def)

lemma c8_eval1: "find_pure_literal [[1, - 1, 2], [- 1, 3], [- 2, - 3]] = None"
  by (simp add: find_pure_literal_def polarities_def)

lemma c8_eval2: "eliminate [[1, - 1, 2], [- 1, 3], [- 2, - 3]] = [[- 2, - 3], [- 1, 2, 3]]"
  by (simp add: eliminate_def resolvents_dp_def resolvent_dp_def tautology_def Let_def)

lemma c8_eval3: "vars_of [[1, - 1, 2], [- 1, 3], [- 2, - 3]] = {1, 2, 3}"
  by (auto simp: vars_of_def lits_of_def)

lemma c8_eval4: "vars_of [[- 2, - 3], [- 1, 2, 3]] = {1, 2, 3}"
  by (auto simp: vars_of_def lits_of_def)

lemma c8_wit1: "find_pure_literal [[1], [- 1, 2]] = Some 2"
  by (simp add: find_pure_literal_def polarities_def)

lemma c8_wit2: "taut_vars_of [[1], [- 1, 2]] = {}"
  by (auto simp: taut_vars_of_def)

lemma sorted_lits_12: "sorted_lits {1, 2} = [1, 2]"
  by (simp add: sorted_lits_def)

lemma resolve_pair_ex: "resolve_pair sorted_lits {1, 2} {- 1, - 2} = Some {2, - 2}"
  by (auto simp: resolve_pair_def sorted_lits_12)

lemma working_set_split:
  "working_set lo co W (m + k) = Some Wn \<Longrightarrow>
   \<exists>Wm. working_set lo co W m = Some Wm \<and> working_set lo co Wm k = Some Wn"
proof (induction m arbitrary: W)
  case 0
  then show ?case by simp
next
  case (Suc m)
  then obtain W' where c: "round_step lo co W = Continue W'"
    and w: "working_set lo co W' (m + k) = Some Wn"
    by (auto split: round_result.splits)
  from Suc.IH[OF w] c show ?case by simp
qed

lemma round_step_eq:
  "round_step lo co W =
     (if {} \<in> round_new lo co W then Verdict False
      else if round_new lo co W \<subseteq> W then Verdict True
      else Continue (W \<union> round_new lo co W))"
proof (cases "outer_loop lo (co W) {}")
  case None
  then have "{} \<in> round_new lo co W"
    using outer_loop_None[of lo "co W" "{}"] by (simp add: round_new_def)
  with None show ?thesis by (simp add: round_step_def)
next
  case (Some new)
  then have "{} \<notin> round_new lo co W"
    using outer_loop_None[of lo "co W" "{}"] by (simp add: round_new_def)
  with Some outer_loop_round_new[of lo co W new] show ?thesis by (simp add: round_step_def)
qed

lemma resolution_loop_Verdict:
  "round_step lo co W = Verdict b \<Longrightarrow> resolution_loop lo co W = Some b"
  by (subst resolution_loop.simps) simp

lemma resolution_loop_Continue:
  "round_step lo co W = Continue W' \<Longrightarrow> resolution_loop lo co W = resolution_loop lo co W'"
  by (subst resolution_loop.simps) simp

lemma resolution_no_clash:
  assumes v: "valid_lit_order lo" "valid_clause_order co"
    and nc: "\<forall>c1\<in>set clauses. \<forall>c2\<in>set clauses. \<forall>l\<in>set c1. - l \<notin> set c2"
  shows "resolution lo co clauses = Some True"
proof -
  let ?W = "set (map set clauses)"
  have fc: "finite_clauses ?W" by (rule finite_clauses_input)
  have "round_new lo co ?W = {}"
  proof (rule ccontr)
    assume "round_new lo co ?W \<noteq> {}"
    then obtain r where "r \<in> round_new lo co ?W" by auto
    from round_new_sub[OF v fc this] obtain c1 c2 l where
      "c1 \<in> ?W" "c2 \<in> ?W" "l \<in> c1" "- l \<in> c2" by blast
    with nc show False by auto
  qed
  then have "round_step lo co ?W = Verdict True" by (simp add: round_step_eq)
  then show ?thesis by (simp add: resolution_def resolution_loop_Verdict)
qed

lemma derivable_mono_set:
  assumes "derivable W' c" "\<And>d. d \<in> W' \<Longrightarrow> derivable W d"
  shows "derivable W c"
  using assms(1)
proof (induction rule: derivable.induct)
  case (given c)
  then show ?case by (rule assms(2))
next
  case (resolvent c1 c2 l)
  then show ?case by (auto intro: derivable.resolvent)
qed

lemma round_new_derivable:
  assumes "valid_lit_order lo" "valid_clause_order co" "finite_clauses W" "r \<in> round_new lo co W"
  shows "derivable W r"
proof -
  from round_new_sub[OF assms] obtain c1 c2 l where
    "c1 \<in> W" "c2 \<in> W" "l \<in> c1" "- l \<in> c2" "r = (c1 \<union> c2) - {l, - l}" by blast
  then show ?thesis by (auto intro: derivable.intros)
qed

lemma working_set_derivable:
  assumes v: "valid_lit_order lo" "valid_clause_order co"
  shows "working_set lo co W n = Some Wn \<Longrightarrow> finite_clauses W \<Longrightarrow> c \<in> Wn \<Longrightarrow> derivable W c"
proof (induction n arbitrary: W c)
  case 0
  then show ?case by (auto intro: derivable.given)
next
  case (Suc n)
  then obtain W' where s: "round_step lo co W = Continue W'" and w: "working_set lo co W' n = Some Wn"
    by (auto split: round_result.splits)
  from round_step_Continue[OF s] have W': "W' = W \<union> round_new lo co W" by simp
  have fc': "finite_clauses W'" unfolding W' by (rule finite_clauses_step[OF v Suc.prems(2)])
  have d: "derivable W' c" by (rule Suc.IH[OF w fc' Suc.prems(3)])
  show ?case
  proof (rule derivable_mono_set[OF d])
    fix d assume "d \<in> W'"
    then show "derivable W d"
      unfolding W' using round_new_derivable[OF v Suc.prems(2)] by (auto intro: derivable.given)
  qed
qed

lemma resolution_False_derivable:
  assumes v: "valid_lit_order lo" "valid_clause_order co"
    and r: "resolution lo co clauses = Some False"
  shows "derivable (set (map set clauses)) {}"
proof -
  let ?W = "set (map set clauses)"
  have fc: "finite_clauses ?W" by (rule finite_clauses_input)
  from resolution_loop_run[OF v fc] obtain b n Wn where
    run: "resolution_loop lo co ?W = Some b" "working_set lo co ?W n = Some Wn"
       "round_step lo co Wn = Verdict b" by blast
  from run(1) r have "b = False" by (simp add: resolution_def)
  with run(3) have e: "{} \<in> round_new lo co Wn" by (simp add: round_step_False_new)
  have fcn: "finite_clauses Wn" by (rule working_set_finite[OF v run(2) fc])
  from round_new_derivable[OF v fcn e] have "derivable Wn {}" .
  then show ?thesis
    by (rule derivable_mono_set) (rule working_set_derivable[OF v run(2) fc])
qed

lemma resolution_terminates:
  assumes "valid_lit_order lo" "valid_clause_order co"
  shows "\<exists>b. resolution lo co clauses = Some b"
  using resolution_loop_run[OF assms finite_clauses_input, of clauses]
  by (auto simp: resolution_def)

lemma dp_eliminate_Nil: "dp_eliminate [] = True"
  by (simp add: dp_eliminate.simps[of "[]"])

lemma pure_classic: "find_pure_literal [[1, 2], [- 1, - 2]] = None"
  by (simp add: find_pure_literal_def polarities_def)

lemma eliminate_classic: "eliminate [[1, 2], [- 1, - 2]] = []"
  by (simp add: eliminate_def resolvents_dp_def resolvent_dp_def tautology_def Let_def)

lemma dp_classic: "dp_eliminate [[1, 2], [- 1, - 2]] = True"
  by (simp add: dp_eliminate.simps[of "[[1, 2], [- 1, - 2]]"] pure_classic eliminate_classic
        dp_eliminate_Nil)

lemma dpll_trace_classic:
  "dpll_trace [[1, 2], [- 1, - 2]] {} = (Some {1, - 2}, [({}, 1), ({1}, - 2)])"
proof -
  have g: "\<not> all_true [[1, 2], [- 1, - 2]] {}" "\<not> some_false [[1, 2], [- 1, - 2]] {}"
    by (auto simp: all_true_def some_false_def)
  have u: "unit_clause [[1, 2], [- 1, - 2]] {} = None" by simp
  have p: "pure_literal [[1, 2], [- 1, - 2]] {} = None"
    by (simp add: pure_literal_def counts_of_def)
  have f: "first_unassigned [[1, 2], [- 1, - 2]] {} = Some 1"
    by (simp add: first_unassigned_def)
  have s1: "simplify [[1, 2], [- 1, - 2]] \<bar>1\<bar> True = [[- 2]]" by (simp add: simplify_def)
  have g2: "\<not> all_true [[- 2]] ({} \<union> {\<bar>1\<bar>})" "\<not> some_false [[- 2]] ({} \<union> {\<bar>1\<bar>})"
    by (auto simp: all_true_def some_false_def)
  have u2: "unit_clause [[- 2]] ({} \<union> {\<bar>1\<bar>}) = Some (- 2)" by simp
  have s2: "simplify [[- 2]] \<bar>- 2\<bar> (- 2 > (0::int)) = []" by (simp add: simplify_def)
  have l3: "dpll_trace [] ({} \<union> {\<bar>1\<bar>} \<union> {- 2}) = (Some {1, - 2}, [])"
    by (simp add: dpll_trace.simps[of "[]"] all_true_def insert_commute)
  have l2: "dpll_trace [[- 2]] ({} \<union> {\<bar>1\<bar>}) = (Some {1, - 2}, [({1}, - 2)])"
    by (simp only: dpll_trace_unit[OF g2 u2] s2 l3) simp
  show ?thesis
    by (simp only: dpll_trace_branch[OF g u p f] s1 l2) simp
qed

lemma dpll_classic: "dpll_rec [[1, 2], [- 1, - 2]] {} = Some {1, - 2}"
  using dpll_trace_result[of "[[1, 2], [- 1, - 2]]" "{}"] by (simp add: dpll_trace_classic)

lemma dpll_rec_consistent:
  "consistent model \<Longrightarrow> dpll_rec clauses model = Some r \<Longrightarrow> consistent r \<and> model \<subseteq> r"
proof (induction clauses model rule: dpll_rec.induct)
  case (1 clauses model)
  note c = "1.prems"(1)
  show ?case
  proof (cases "all_true clauses model")
    case True
    with "1.prems" show ?thesis by (simp add: dpll_rec_sat)
  next
    case False
    note a = this
    show ?thesis
    proof (cases "some_false clauses model")
      case True
      with a "1.prems" show ?thesis by (simp add: dpll_rec_conflict)
    next
      case False
      note g = a False
      show ?thesis
      proof (cases "unit_clause clauses model")
        case (Some unit)
        from unit_clause_Some[OF Some] have un: "unit \<notin> model" "- unit \<notin> model" by auto
        from consistent_insert[OF c un] have "consistent (model \<union> {unit})" by simp
        from "1.IH"(4)[OF g Some this] "1.prems"(2) show ?thesis
          by (simp add: dpll_rec_unit[OF g Some])
      next
        case None
        note u = this
        show ?thesis
        proof (cases "pure_literal clauses model")
          case (Some pure)
          from pure_literal_Some[OF Some] have un: "pure \<notin> model" "- pure \<notin> model" by auto
          from consistent_insert[OF c un] have "consistent (model \<union> {pure})" by simp
          from "1.IH"(3)[OF g u Some this] "1.prems"(2) show ?thesis
            by (simp add: dpll_rec_pure[OF g u Some])
        next
          case None
          note p = this
          show ?thesis
          proof (cases "first_unassigned clauses model")
            case None
            with "1.prems"(2) show ?thesis by (simp add: dpll_rec_stuck[OF g u p])
          next
            case (Some lit)
            note f = this
            from first_unassigned_Some[OF Some] have "lit \<notin> model" "- lit \<notin> model" by auto
            from abs_unassigned[OF this] have un: "\<bar>lit\<bar> \<notin> model" "- \<bar>lit\<bar> \<notin> model" by auto
            then have un': "- \<bar>lit\<bar> \<notin> model" "- (- \<bar>lit\<bar>) \<notin> model" by auto
            from consistent_insert[OF c un] have c1: "consistent (model \<union> {\<bar>lit\<bar>})" by simp
            from consistent_insert[OF c un'] have c2: "consistent (model \<union> {- \<bar>lit\<bar>})" by simp
            show ?thesis
            proof (cases "dpll_rec (simplify clauses \<bar>lit\<bar> True) (model \<union> {\<bar>lit\<bar>})")
              case None
              with "1.prems"(2) have "dpll_rec (simplify clauses \<bar>lit\<bar> False) (model \<union> {- \<bar>lit\<bar>}) = Some r"
                by (simp add: dpll_rec_branch[OF g u p f])
              from "1.IH"(2)[OF g u p f None c2 this] show ?thesis by simp
            next
              case (Some res)
              with "1.prems"(2) have "res = r" by (simp add: dpll_rec_branch[OF g u p f])
              with "1.IH"(1)[OF g u p f c1] Some show ?thesis by simp
            qed
          qed
        qed
      qed
    qed
  qed
qed

lemma consistent_empty: "consistent {}"
  by (simp add: consistent_def)

lemma dpll_rec_empty_clause: "[] \<in> set clauses \<Longrightarrow> dpll_rec clauses model = None"
proof -
  assume a: "[] \<in> set clauses"
  then have "\<not> all_true clauses model" "some_false clauses model"
    unfolding all_true_def some_false_def by force+
  then show ?thesis by (rule dpll_rec_conflict)
qed

lemma resolution_single_empty:
  assumes "valid_lit_order lo" "valid_clause_order co"
  shows "resolution lo co [[]] = Some True"
  by (rule resolution_no_clash[OF assms]) simp

lemma resolution_unit_pair:
  assumes v: "valid_lit_order lo" "valid_clause_order co"
  shows "resolution lo co [[1], [- 1]] = Some False"
proof -
  let ?W = "set (map set [[1], [- 1::int]])"
  have fc: "finite_clauses ?W" by (rule finite_clauses_input)
  have "{1} \<in> ?W" "{- 1} \<in> ?W" "{1} \<noteq> {- 1::int}" "(1::int) \<in> {1}" "- (1::int) \<in> {- 1}" by simp_all
  from round_has_resolvent[OF v fc this] obtain m where
    "m \<in> {1::int}" "({1} \<union> {- 1}) - {m, - m} \<in> round_new lo co ?W" by blast
  then have "{} \<in> round_new lo co ?W" by simp
  then have "round_step lo co ?W = Verdict False" by (simp add: round_step_eq)
  then show ?thesis by (simp add: resolution_def resolution_loop_Verdict)
qed

lemma round_new_example:
  assumes v: "valid_lit_order lo" "valid_clause_order co"
  shows "round_new lo co {{1, 2}, {- 1, 3}} = {{2, 3}}"
proof -
  let ?W = "{{1, 2}, {- 1, 3::int}}"
  have fc: "finite_clauses ?W" by (simp add: finite_clauses_def)
  have sub: "r = {2, 3}" if "r \<in> round_new lo co ?W" for r
  proof -
    from round_new_sub[OF v fc that] obtain c1 c2 l where
      c: "c1 \<in> ?W" "c2 \<in> ?W" "c1 \<noteq> c2" "l \<in> c1" "- l \<in> c2" "r = (c1 \<union> c2) - {l, - l}" by blast
    from c(1,2,3) consider "c1 = {1, 2}" "c2 = {- 1, 3}" | "c1 = {- 1, 3}" "c2 = {1, 2}" by auto
    then show ?thesis
    proof cases
      case 1
      with c(4,5) have "l = 1" by auto
      with 1 c(6) show ?thesis by auto
    next
      case 2
      with c(4,5) have "l = - 1" by auto
      with 2 c(6) show ?thesis by auto
    qed
  qed
  have "{1, 2} \<in> ?W" "{- 1, 3} \<in> ?W" "{1, 2} \<noteq> {- 1, 3::int}" "(1::int) \<in> {1, 2}" "- (1::int) \<in> {- 1, 3}"
    by (simp_all add: doubleton_eq_iff)
  from round_has_resolvent[OF v fc this] obtain m where "m \<in> round_new lo co ?W"
    by blast
  with sub show ?thesis by blast
qed

lemma working_set_example:
  assumes v: "valid_lit_order lo" "valid_clause_order co"
  shows "working_set lo co (set (map set [[1, 2], [- 1, 3]])) 1 = Some {{1, 2}, {- 1, 3}, {2, 3}}"
proof -
  have "round_step lo co {{1, 2}, {- 1, 3}} = Continue ({{1, 2}, {- 1, 3}} \<union> {{2, 3}})"
    by (simp add: round_step_eq round_new_example[OF v] doubleton_eq_iff)
  then show ?thesis by (simp add: insert_commute)
qed

subsection \<open>The DP and DPLL engines decide satisfiability\<close>

lemma lit_true_neg: "l \<noteq> 0 \<Longrightarrow> lit_true I (- l) = (\<not> lit_true I l)"
  by (auto simp: lit_true_def)

lemma lit_true_set_lit_same: "l \<noteq> 0 \<Longrightarrow> lit_true (set_lit I l) l"
  by (auto simp: lit_true_def set_lit_def)

lemma lit_true_set_lit_other: "\<bar>k\<bar> \<noteq> \<bar>l\<bar> \<Longrightarrow> lit_true (set_lit I l) k = lit_true I k"
  by (auto simp: lit_true_def set_lit_def)

lemma lit_true_upd_other: "\<bar>k\<bar> \<noteq> v \<Longrightarrow> lit_true (I(v := b)) k = lit_true I k"
  by (auto simp: lit_true_def)

lemma satisfies_subset: "satisfies I G \<Longrightarrow> set F \<subseteq> set G \<Longrightarrow> satisfies I F"
  by (auto simp: satisfies_def)

lemma satisfiable_subset: "satisfiable G \<Longrightarrow> set F \<subseteq> set G \<Longrightarrow> satisfiable F"
  by (auto simp: satisfiable_def intro: satisfies_subset)

lemma well_formed_subset: "well_formed G \<Longrightarrow> lits_of F \<subseteq> lits_of G \<Longrightarrow> well_formed F"
  by (auto simp: well_formed_def)

lemma abs_neq_iff: "\<bar>k\<bar> \<noteq> \<bar>l\<bar> \<longleftrightarrow> (k \<noteq> l \<and> k \<noteq> - l)" for k l :: int
  by (auto simp: abs_eq_iff)

lemma pure_step_sat:
  assumes wf: "well_formed F" and pl: "p \<in> lits_of F"
    and pure: "\<And>l. l \<in> lits_of F \<Longrightarrow> \<bar>l\<bar> = \<bar>p\<bar> \<Longrightarrow> l = p"
    and sat: "satisfies I (filter (\<lambda>c. p \<notin> set c) F)"
  shows "satisfies (set_lit I p) F"
  unfolding satisfies_def
proof
  from wf pl have p0: "p \<noteq> 0" by (auto simp: well_formed_def)
  fix c assume c: "c \<in> set F"
  show "\<exists>l\<in>set c. lit_true (set_lit I p) l"
  proof (cases "p \<in> set c")
    case True
    with lit_true_set_lit_same[OF p0] show ?thesis by blast
  next
    case False
    with c sat obtain l where l: "l \<in> set c" "lit_true I l" by (auto simp: satisfies_def)
    from l(1) c have lF: "l \<in> lits_of F" by (rule lits_ofI[rotated])
    from l(1) False have "l \<noteq> p" by auto
    with pure[OF lF] have "\<bar>l\<bar> \<noteq> \<bar>p\<bar>" by auto
    with l lit_true_set_lit_other[of l p I] show ?thesis by auto
  qed
qed

lemma dp_pure_equisat:
  assumes "well_formed F" "find_pure_literal F = Some p"
  shows "satisfiable (filter (\<lambda>c. p \<notin> set c) F) \<longleftrightarrow> satisfiable F"
proof
  assume "satisfiable (filter (\<lambda>c. p \<notin> set c) F)"
  then obtain I where "satisfies I (filter (\<lambda>c. p \<notin> set c) F)" by (auto simp: satisfiable_def)
  from pure_step_sat[OF assms(1) find_pure_literal_Some(1)[OF assms(2)]
      find_pure_literal_Some(2)[OF assms(2)] this]
  show "satisfiable F" by (auto simp: satisfiable_def)
next
  assume "satisfiable F"
  then show "satisfiable (filter (\<lambda>c. p \<notin> set c) F)" by (rule satisfiable_subset) auto
qed

lemma dp_unit_equisat:
  assumes wf: "well_formed F" and u: "find_unit_clause F = Some u"
  shows "satisfiable (unit_propagate F u) \<longleftrightarrow> satisfiable F"
proof -
  from find_unit_clause_Some[OF u] have uc: "[u] \<in> set F" .
  then have "u \<in> lits_of F" by (auto intro: lits_ofI)
  with wf have u0: "u \<noteq> 0" by (auto simp: well_formed_def)
  have eq: "unit_propagate F u =
     (if unit_conflict F u then [[]]
      else map (filter (\<lambda>lit. lit \<noteq> - u)) (filter (\<lambda>c. u \<notin> set c) F))"
    by (simp add: unit_propagate_def unit_propagate_loop_eq)
  have utrue: "lit_true I u" if "satisfies I F" for I
    using that uc by (auto simp: satisfies_def)
  show ?thesis
  proof (cases "unit_conflict F u")
    case True
    then obtain c where c: "c \<in> set F" "- u \<in> set c" "filter (\<lambda>lit. lit \<noteq> - u) c = []"
      by (auto simp: unit_conflict_def)
    have "\<not> satisfies I F" for I
    proof
      assume s: "satisfies I F"
      with c(1) obtain l where l: "l \<in> set c" "lit_true I l" by (auto simp: satisfies_def)
      from c(3) l(1) have "l = - u" by (auto simp: filter_empty_conv)
      with l(2) utrue[OF s] lit_true_neg[OF u0, of I] show False by simp
    qed
    moreover have "\<not> satisfiable [[]]" by (simp add: satisfiable_def satisfies_def)
    ultimately show ?thesis using True eq by (simp add: satisfiable_def)
  next
    case False
    with eq have r: "unit_propagate F u = map (filter (\<lambda>lit. lit \<noteq> - u)) (filter (\<lambda>c. u \<notin> set c) F)"
      by simp
    show ?thesis
    proof
      assume "satisfiable (unit_propagate F u)"
      then obtain I where I: "satisfies I (unit_propagate F u)" by (auto simp: satisfiable_def)
      have "satisfies (set_lit I u) F" unfolding satisfies_def
      proof
        fix c assume c: "c \<in> set F"
        show "\<exists>l\<in>set c. lit_true (set_lit I u) l"
        proof (cases "u \<in> set c")
          case True
          with lit_true_set_lit_same[OF u0] show ?thesis by blast
        next
          case False
          with c have "filter (\<lambda>lit. lit \<noteq> - u) c \<in> set (unit_propagate F u)" by (simp add: r)
          with I have "\<exists>l\<in>set (filter (\<lambda>lit. lit \<noteq> - u) c). lit_true I l"
            unfolding satisfies_def by blast
          then obtain l where l: "l \<in> set c" "l \<noteq> - u" "lit_true I l" by auto
          from l(1) False have "l \<noteq> u" by auto
          with l(2) have "\<bar>l\<bar> \<noteq> \<bar>u\<bar>" by (simp add: abs_neq_iff)
          with l lit_true_set_lit_other[of l u I] show ?thesis by auto
        qed
      qed
      then show "satisfiable F" by (auto simp: satisfiable_def)
    next
      assume "satisfiable F"
      then obtain I where I: "satisfies I F" by (auto simp: satisfiable_def)
      have nu: "\<not> lit_true I (- u)" using utrue[OF I] lit_true_neg[OF u0, of I] by simp
      have "satisfies I (unit_propagate F u)" unfolding satisfies_def r
      proof
        fix d assume "d \<in> set (map (filter (\<lambda>lit. lit \<noteq> - u)) (filter (\<lambda>c. u \<notin> set c) F))"
        then obtain c where c: "c \<in> set F" "d = filter (\<lambda>lit. lit \<noteq> - u) c" by auto
        from I c(1) obtain l where l: "l \<in> set c" "lit_true I l" by (auto simp: satisfies_def)
        with nu have "l \<noteq> - u" by auto
        with l c(2) show "\<exists>l\<in>set d. lit_true I l" by auto
      qed
      then show "satisfiable (unit_propagate F u)" by (auto simp: satisfiable_def)
    qed
  qed
qed

lemma not_tautology_false:
  assumes "0 \<notin> set R" "\<forall>l\<in>set R. \<not> lit_true I l"
  shows "\<not> tautology R"
proof
  assume "tautology R"
  then obtain l where l: "l \<in> set R" "- l \<in> set R" by (auto simp: tautology_def)
  with assms(1) have "l \<noteq> 0" by auto
  from lit_true_neg[OF this, of I] assms(2) l show False by auto
qed

lemma dp_elim_equisat:
  assumes wf: "well_formed F" and ne: "F \<noteq> []" "[] \<notin> set F"
  shows "satisfiable (eliminate F) \<longleftrightarrow> satisfiable F"
proof
  let ?v = "\<bar>hd (hd F)\<bar>"
  from ne have "\<not> (\<exists>c\<in>set F. length c = 0)" by auto
  from pivot_in_vars[OF ne(1) this] wf have v0: "?v \<noteq> 0"
    by (auto simp: vars_of_def well_formed_def)
  then have vpos: "?v > 0" by simp
  {
    assume "satisfiable F"
    then obtain I where I: "satisfies I F" by (auto simp: satisfiable_def)
    have "satisfies I (eliminate F)" unfolding satisfies_def
    proof
      fix r assume "r \<in> set (eliminate F)"
      then consider "r \<in> set F" |
        C D where "C \<in> set F" "D \<in> set F" "?v \<in> set C" "- ?v \<in> set D" "r = resolvent_dp ?v C D"
        by (auto simp: set_eliminate)
      then show "\<exists>l\<in>set r. lit_true I l"
      proof cases
        case 1
        with I show ?thesis by (auto simp: satisfies_def)
      next
        case 2
        from I 2(1) obtain a where a: "a \<in> set C" "lit_true I a" by (auto simp: satisfies_def)
        from I 2(2) obtain b where b: "b \<in> set D" "lit_true I b" by (auto simp: satisfies_def)
        show ?thesis
        proof (cases "lit_true I ?v")
          case True
          then have "\<not> lit_true I (- ?v)" using lit_true_neg[OF v0, of I] by simp
          with b have "b \<noteq> - ?v" by auto
          with b 2(5) have "b \<in> set r" by (simp add: set_resolvent_dp)
          with b show ?thesis by blast
        next
          case False
          with a have "a \<noteq> ?v" by auto
          with a 2(5) have "a \<in> set r" by (simp add: set_resolvent_dp)
          with a show ?thesis by blast
        qed
      qed
    qed
    then show "satisfiable (eliminate F)" by (auto simp: satisfiable_def)
  }
  {
    assume "satisfiable (eliminate F)"
    then obtain I where I: "satisfies I (eliminate F)" by (auto simp: satisfiable_def)
    let ?I1 = "I(?v := True)" and ?I0 = "I(?v := False)"
    have t1: "lit_true ?I1 ?v" using vpos by (simp add: lit_true_def)
    have t0: "lit_true ?I0 (- ?v)" using vpos by (simp add: lit_true_def)
    have other: "lit_true (I(?v := b)) k = lit_true I k" if "k \<noteq> ?v" "k \<noteq> - ?v" for k b
      using that by (intro lit_true_upd_other) (auto simp: abs_eq_iff)
    have rest: "\<exists>l\<in>set c. lit_true (I(?v := b)) l"
      if "c \<in> set F" "?v \<notin> set c" "- ?v \<notin> set c" for c b
    proof -
      from that have "c \<in> set (eliminate F)" by (simp add: set_eliminate)
      with I obtain l where l: "l \<in> set c" "lit_true I l" by (auto simp: satisfies_def)
      with that(2,3) have "l \<noteq> ?v" "l \<noteq> - ?v" by auto
      from other[OF this] l show ?thesis by auto
    qed
    show "satisfiable F"
    proof (rule ccontr)
      assume ns: "\<not> satisfiable F"
      then have "\<not> satisfies ?I1 F" "\<not> satisfies ?I0 F" by (auto simp: satisfiable_def)
      then obtain D C where D: "D \<in> set F" "\<forall>l\<in>set D. \<not> lit_true ?I1 l"
        and C: "C \<in> set F" "\<forall>l\<in>set C. \<not> lit_true ?I0 l"
        by (auto simp: satisfies_def)
      from D t1 have Dv: "?v \<notin> set D" by auto
      from C t0 have Cv: "- ?v \<notin> set C" by auto
      from D rest[of D True] Dv have Dn: "- ?v \<in> set D" by auto
      from C rest[of C False] Cv have Cp: "?v \<in> set C" by auto
      let ?R = "resolvent_dp ?v C D"
      have fl: "\<forall>l\<in>set ?R. \<not> lit_true I l"
      proof
        fix l assume "l \<in> set ?R"
        then have "(l \<in> set C \<and> l \<noteq> ?v) \<or> (l \<in> set D \<and> l \<noteq> - ?v)"
          by (auto simp: set_resolvent_dp)
        then show "\<not> lit_true I l"
        proof
          assume a: "l \<in> set C \<and> l \<noteq> ?v"
          with Cv have "l \<noteq> - ?v" by auto
          with a other[of l False] C(2) show ?thesis by auto
        next
          assume a: "l \<in> set D \<and> l \<noteq> - ?v"
          with Dv have "l \<noteq> ?v" by auto
          with a other[of l True] D(2) show ?thesis by auto
        qed
      qed
      have "0 \<notin> set ?R"
        using wf C(1) D(1) by (auto simp: set_resolvent_dp well_formed_def lits_of_def)
      from not_tautology_false[OF this fl] have "\<not> tautology ?R" .
      with C(1) D(1) Cp Dn have "?R \<in> set (eliminate F)" by (auto simp: set_eliminate)
      with I fl show False by (auto simp: satisfies_def)
    qed
  }
qed

lemma well_formed_filter: "well_formed F \<Longrightarrow> well_formed (filter P F)"
  by (auto simp: well_formed_def lits_of_def)

lemma well_formed_unit_propagate: "well_formed F \<Longrightarrow> well_formed (unit_propagate F u)"
  using lits_unit_propagate[of F u] by (auto simp: well_formed_def)

lemma well_formed_eliminate: "well_formed F \<Longrightarrow> well_formed (eliminate F)"
  using elim_step_lits[of F] by (auto simp: well_formed_def)

lemma dp_eliminate_correct: "well_formed clauses \<Longrightarrow> dp_eliminate clauses \<longleftrightarrow> satisfiable clauses"
proof (induction clauses rule: dp_eliminate.induct)
  case (1 clauses)
  note wf = "1.prems"
  show ?case
  proof (cases "\<exists>c\<in>set clauses. length c = 0")
    case True
    then have "[] \<in> set clauses" by auto
    then have "\<not> satisfiable clauses" unfolding satisfiable_def satisfies_def by force
    with True show ?thesis by (simp add: dp_eliminate.simps[of clauses])
  next
    case False
    note ne = this
    show ?thesis
    proof (cases "clauses = []")
      case True
      then show ?thesis
        by (simp add: dp_eliminate_Nil satisfiable_def satisfies_def)
    next
      case False
      note nn = this
      show ?thesis
      proof (cases "find_pure_literal clauses")
        case (Some p)
        from "1.IH"(3)[OF ne nn Some well_formed_filter[OF wf]] dp_pure_equisat[OF wf Some]
        show ?thesis using ne nn Some by (simp add: dp_eliminate.simps[of clauses])
      next
        case None
        note np = this
        show ?thesis
        proof (cases "find_unit_clause clauses")
          case (Some u)
          from "1.IH"(2)[OF ne nn np Some well_formed_unit_propagate[OF wf]]
            dp_unit_equisat[OF wf Some]
          show ?thesis using ne nn np Some by (simp add: dp_eliminate.simps[of clauses])
        next
          case None
          from ne have "[] \<notin> set clauses" by auto
          from "1.IH"(1)[OF ne nn np None well_formed_eliminate[OF wf]]
            dp_elim_equisat[OF wf nn this]
          show ?thesis using ne nn np None by (simp add: dp_eliminate.simps[of clauses])
        qed
      qed
    qed
  qed
qed

lemma all_true_unassigned:
  "all_unassigned clauses model \<Longrightarrow> all_true clauses model \<longleftrightarrow> clauses = []"
proof
  assume u: "all_unassigned clauses model" and t: "all_true clauses model"
  show "clauses = []"
  proof (rule ccontr)
    assume "clauses \<noteq> []"
    then obtain c where c: "c \<in> set clauses" by (cases clauses) auto
    with t obtain l where l: "l \<in> set c" "l \<in> model" unfolding all_true_def by blast
    from lits_ofI[OF c l(1)] u l(2) show False by (auto simp: all_unassigned_def)
  qed
next
  assume "clauses = []"
  then show "all_true clauses model" by (simp add: all_true_def)
qed

lemma some_false_unassigned:
  "all_unassigned clauses model \<Longrightarrow> some_false clauses model \<longleftrightarrow> [] \<in> set clauses"
proof
  assume u: "all_unassigned clauses model" and f: "some_false clauses model"
  then obtain c where c: "c \<in> set clauses" "\<forall>l\<in>set c. - l \<in> model"
    unfolding some_false_def by blast
  have "c = []"
  proof (rule ccontr)
    assume "c \<noteq> []"
    then obtain l where l: "l \<in> set c" by (cases c) auto
    from lits_ofI[OF c(1) l] u c(2) l show False by (auto simp: all_unassigned_def)
  qed
  with c(1) show "[] \<in> set clauses" by simp
next
  assume "[] \<in> set clauses"
  then show "some_false clauses model" unfolding some_false_def by force
qed

lemma all_unassigned_simplify:
  assumes "all_unassigned clauses model" "x = v \<or> x = - v"
  shows "all_unassigned (simplify clauses v val) (model \<union> {x})"
  unfolding all_unassigned_def
proof
  fix l assume "l \<in> lits_of (simplify clauses v val)"
  with lits_simplify[of clauses v val] have l: "l \<in> lits_of clauses" "l \<noteq> v" "l \<noteq> - v" by auto
  with assms show "l \<notin> model \<union> {x} \<and> - l \<notin> model \<union> {x}"
    by (auto simp: all_unassigned_def)
qed

lemma well_formed_simplify: "well_formed clauses \<Longrightarrow> well_formed (simplify clauses v val)"
  using lits_simplify[of clauses v val] by (auto simp: well_formed_def)

lemma simplify_sat:
  assumes "v > 0"
  shows "satisfiable (simplify clauses v val) \<longleftrightarrow> (\<exists>I. I v = val \<and> satisfies I clauses)"
proof
  let ?t = "if val then v else - v" and ?f = "if val then - v else v"
  have tf: "?f = - ?t" "\<bar>?t\<bar> = v" using assms by auto
  {
    assume "satisfiable (simplify clauses v val)"
    then obtain I where I: "satisfies I (simplify clauses v val)" by (auto simp: satisfiable_def)
    let ?J = "I(v := val)"
    have tt: "lit_true ?J ?t" using assms by (auto simp: lit_true_def)
    have "satisfies ?J clauses" unfolding satisfies_def
    proof
      fix c assume c: "c \<in> set clauses"
      show "\<exists>l\<in>set c. lit_true ?J l"
      proof (cases "?t \<in> set c")
        case True
        with tt show ?thesis by blast
      next
        case False
        with c have "filter (\<lambda>lit. lit \<noteq> ?f) c \<in> set (simplify clauses v val)"
          by (simp add: simplify_def)
        with I have "\<exists>l\<in>set (filter (\<lambda>lit. lit \<noteq> ?f) c). lit_true I l"
          unfolding satisfies_def by blast
        then obtain l where l: "l \<in> set c" "l \<noteq> ?f" "lit_true I l" by auto
        from l(1) False have "l \<noteq> ?t" by auto
        with l(2) have "\<bar>l\<bar> \<noteq> v" using assms by (auto simp: abs_if split: if_splits)
        from lit_true_upd_other[OF this, of I val] l show ?thesis by auto
      qed
    qed
    then show "\<exists>I. I v = val \<and> satisfies I clauses" by (intro exI[of _ ?J]) simp
  }
  {
    assume "\<exists>I. I v = val \<and> satisfies I clauses"
    then obtain I where I: "I v = val" "satisfies I clauses" by blast
    have ff: "\<not> lit_true I ?f" using assms I(1) by (auto simp: lit_true_def)
    have "satisfies I (simplify clauses v val)" unfolding satisfies_def
    proof
      fix d assume "d \<in> set (simplify clauses v val)"
      then obtain c where c: "c \<in> set clauses" "d = filter (\<lambda>lit. lit \<noteq> ?f) c"
        by (auto simp: simplify_def)
      from I(2) c(1) obtain l where l: "l \<in> set c" "lit_true I l" by (auto simp: satisfies_def)
      with ff have "l \<noteq> ?f" by auto
      with l c(2) show "\<exists>l\<in>set d. lit_true I l" by auto
    qed
    then show "satisfiable (simplify clauses v val)" by (auto simp: satisfiable_def)
  }
qed

lemma unit_clause_witness:
  "unit_clause clauses model = Some u \<Longrightarrow>
   \<exists>c\<in>set clauses. filter (\<lambda>lit. - lit \<notin> model) c = [u]"
proof (induction clauses)
  case Nil
  then show ?case by simp
next
  case (Cons c cs)
  let ?s = "filter (\<lambda>lit. - lit \<notin> model) c"
  show ?case
  proof (cases "length ?s = 1 \<and> hd ?s \<notin> model \<and> - hd ?s \<notin> model")
    case True
    with Cons.prems have u: "u = hd ?s" by (simp add: Let_def)
    from True obtain y where "?s = [y]" by (cases ?s) auto
    with u show ?thesis by simp
  next
    case False
    with Cons.prems have "unit_clause cs model = Some u" by (auto simp: Let_def)
    from Cons.IH[OF this] show ?thesis by auto
  qed
qed

lemma forced_literal_sat:
  assumes "x \<noteq> 0" "\<And>I. satisfies I clauses \<Longrightarrow> \<exists>J. satisfies J clauses \<and> lit_true J x"
  shows "satisfiable (simplify clauses \<bar>x\<bar> (x > 0)) \<longleftrightarrow> satisfiable clauses"
proof -
  from assms(1) have p: "\<bar>x\<bar> > 0" by simp
  have iff: "lit_true J x \<longleftrightarrow> J \<bar>x\<bar> = (x > 0)" for J
    using assms(1) by (auto simp: lit_true_def)
  show ?thesis unfolding simplify_sat[OF p]
  proof
    assume "\<exists>I. I \<bar>x\<bar> = (0 < x) \<and> satisfies I clauses"
    then show "satisfiable clauses" by (auto simp: satisfiable_def)
  next
    assume "satisfiable clauses"
    then obtain I where "satisfies I clauses" by (auto simp: satisfiable_def)
    from assms(2)[OF this] obtain J where "satisfies J clauses" "lit_true J x" by blast
    then show "\<exists>I. I \<bar>x\<bar> = (0 < x) \<and> satisfies I clauses" using iff by blast
  qed
qed

lemma dpll_rec_correct:
  "well_formed clauses \<Longrightarrow> all_unassigned clauses model \<Longrightarrow>
   dpll_rec clauses model \<noteq> None \<longleftrightarrow> satisfiable clauses"
proof (induction clauses model rule: dpll_rec.induct)
  case (1 clauses model)
  note wf = "1.prems"(1) and ua = "1.prems"(2)
  have ul: "unassigned_lits clauses model = lits_of clauses"
    using ua by (auto simp: unassigned_lits_def all_unassigned_def)
  show ?case
  proof (cases "all_true clauses model")
    case True
    with all_true_unassigned[OF ua] have "clauses = []" by simp
    then have "satisfiable clauses" by (simp add: satisfiable_def satisfies_def)
    with True show ?thesis by (simp add: dpll_rec_sat)
  next
    case False
    note a = this
    show ?thesis
    proof (cases "some_false clauses model")
      case True
      with some_false_unassigned[OF ua] have "[] \<in> set clauses" by simp
      then have "\<not> satisfiable clauses" unfolding satisfiable_def satisfies_def by force
      with a True show ?thesis by (simp add: dpll_rec_conflict)
    next
      case False
      note g = a False
      show ?thesis
      proof (cases "unit_clause clauses model")
        case (Some unit)
        from unit_clause_Some[OF Some] have ul: "unit \<in> lits_of clauses" by simp
        with wf have u0: "unit \<noteq> 0" by (auto simp: well_formed_def)
        from unit_clause_witness[OF Some] obtain c where
          c: "c \<in> set clauses" "filter (\<lambda>lit. - lit \<notin> model) c = [unit]" by blast
        have "filter (\<lambda>lit. - lit \<notin> model) c = c"
          using ua c(1) by (auto simp: filter_id_conv all_unassigned_def intro: lits_ofI)
        with c have uc: "[unit] \<in> set clauses" by simp
        have forced: "\<exists>J. satisfies J clauses \<and> lit_true J unit" if "satisfies I clauses" for I
        proof -
          from that uc have "\<exists>l\<in>set [unit]. lit_true I l" unfolding satisfies_def by blast
          then have "lit_true I unit" by simp
          with that show ?thesis by blast
        qed
        have ih: "dpll_rec (simplify clauses \<bar>unit\<bar> (unit > 0)) (model \<union> {unit}) \<noteq> None \<longleftrightarrow>
            satisfiable (simplify clauses \<bar>unit\<bar> (unit > 0))"
          by (rule "1.IH"(4)[OF g Some well_formed_simplify[OF wf]])
             (rule all_unassigned_simplify[OF ua], cases "unit < 0", auto)
        with forced_literal_sat[OF u0 forced] show ?thesis
          by (simp add: dpll_rec_unit[OF g Some])
      next
        case None
        note u = this
        show ?thesis
        proof (cases "pure_literal clauses model")
          case (Some pure)
          have fs: "first_single_sign (counts_of clauses model) = Some pure"
            using Some by (simp add: pure_literal_def)
          note pp = first_single_sign_pure[OF pol_inv_counts fs, unfolded ul]
          from pp(1) wf have p0: "pure \<noteq> 0" by (auto simp: well_formed_def)
          have forced: "\<exists>J. satisfies J clauses \<and> lit_true J pure" if "satisfies I clauses" for I
          proof -
            have "satisfies I (filter (\<lambda>c. pure \<notin> set c) clauses)"
              using that by (rule satisfies_subset) auto
            from pure_step_sat[OF wf pp(1) pp(2) this] lit_true_set_lit_same[OF p0, of I]
            show ?thesis by blast
          qed
          have ih: "dpll_rec (simplify clauses \<bar>pure\<bar> (pure > 0)) (model \<union> {pure}) \<noteq> None \<longleftrightarrow>
              satisfiable (simplify clauses \<bar>pure\<bar> (pure > 0))"
            by (rule "1.IH"(3)[OF g u Some well_formed_simplify[OF wf]])
               (rule all_unassigned_simplify[OF ua], cases "pure < 0", auto)
          with forced_literal_sat[OF p0 forced] show ?thesis
            by (simp add: dpll_rec_pure[OF g u Some])
        next
          case None
          note p = this
          show ?thesis
          proof (cases "first_unassigned clauses model")
            case None
            from g all_true_unassigned[OF ua] some_false_unassigned[OF ua]
            have "clauses \<noteq> []" "[] \<notin> set clauses" by auto
            then obtain c where c: "c \<in> set clauses" "c \<noteq> []"
              by (cases clauses) auto
            from c(2) obtain l where "l \<in> set c" by (cases c) auto
            with c have cl: "c \<in> set clauses" "l \<in> set c" by simp_all
            then have lc: "l \<in> set (concat clauses)" by auto
            from None have "\<not> (\<exists>x. x \<in> set (concat clauses) \<and> x \<notin> model \<and> - x \<notin> model)"
              unfolding first_unassigned_def find_None_iff by simp
            with lc have "l \<in> model \<or> - l \<in> model" by blast
            with ua lits_ofI[OF cl] show ?thesis by (auto simp: all_unassigned_def)
          next
            case (Some lit)
            note f = this
            from first_unassigned_Some[OF Some] wf have l0: "lit \<noteq> 0"
              by (auto simp: well_formed_def)
            then have vp: "\<bar>lit\<bar> > 0" by simp
            have ih1: "dpll_rec (simplify clauses \<bar>lit\<bar> True) (model \<union> {\<bar>lit\<bar>}) \<noteq> None \<longleftrightarrow>
                satisfiable (simplify clauses \<bar>lit\<bar> True)"
              by (rule "1.IH"(1)[OF g u p f well_formed_simplify[OF wf]])
                 (rule all_unassigned_simplify[OF ua], simp)
            have ih2: "dpll_rec (simplify clauses \<bar>lit\<bar> False) (model \<union> {- \<bar>lit\<bar>}) \<noteq> None \<longleftrightarrow>
                satisfiable (simplify clauses \<bar>lit\<bar> False)"
              if "dpll_rec (simplify clauses \<bar>lit\<bar> True) (model \<union> {\<bar>lit\<bar>}) = None"
              by (rule "1.IH"(2)[OF g u p f that well_formed_simplify[OF wf]])
                 (rule all_unassigned_simplify[OF ua], simp)
            have s1: "satisfiable (simplify clauses \<bar>lit\<bar> True) \<longleftrightarrow>
                (\<exists>I. I \<bar>lit\<bar> \<and> satisfies I clauses)"
              using simplify_sat[OF vp, of clauses True] by simp
            have s2: "satisfiable (simplify clauses \<bar>lit\<bar> False) \<longleftrightarrow>
                (\<exists>I. \<not> I \<bar>lit\<bar> \<and> satisfies I clauses)"
              using simplify_sat[OF vp, of clauses False] by simp
            have split: "satisfiable clauses \<longleftrightarrow>
                satisfiable (simplify clauses \<bar>lit\<bar> True) \<or> satisfiable (simplify clauses \<bar>lit\<bar> False)"
              unfolding s1 s2 unfolding satisfiable_def by blast
            show ?thesis
            proof (cases "dpll_rec (simplify clauses \<bar>lit\<bar> True) (model \<union> {\<bar>lit\<bar>})")
              case None
              with ih1 ih2[OF None] split show ?thesis
                by (simp add: dpll_rec_branch[OF g u p f])
            next
              case (Some res)
              with ih1 split show ?thesis
                by (simp add: dpll_rec_branch[OF g u p f])
            qed
          qed
        qed
      qed
    qed
  qed
qed

lemma dpll_correct:
  "well_formed clauses \<Longrightarrow> dpll_rec clauses {} \<noteq> None \<longleftrightarrow> satisfiable clauses"
  by (rule dpll_rec_correct) (simp_all add: all_unassigned_def)

lemma dp_dpll_agree:
  "well_formed clauses \<Longrightarrow> dp_eliminate clauses \<longleftrightarrow> dpll_rec clauses {} \<noteq> None"
  using dp_eliminate_correct[of clauses] dpll_correct[of clauses] by blast

lemma well_formed_mono: "well_formed G \<Longrightarrow> set F \<subseteq> set G \<Longrightarrow> well_formed F"
  by (auto simp: well_formed_def lits_of_def)

lemma dp_verdict_monotone:
  assumes "well_formed G" "set F \<subseteq> set G" "dp_eliminate G"
  shows "dp_eliminate F"
  using assms dp_eliminate_correct[OF assms(1)] dp_eliminate_correct[OF well_formed_mono[OF assms(1,2)]]
  by (auto intro: satisfiable_subset)

lemma dpll_verdict_monotone:
  assumes "well_formed G" "set F \<subseteq> set G" "dpll_rec G {} \<noteq> None"
  shows "dpll_rec F {} \<noteq> None"
  using assms dpll_correct[OF assms(1)] dpll_correct[OF well_formed_mono[OF assms(1,2)]]
  by (auto intro: satisfiable_subset)

lemma dpll_model_satisfies:
  "all_true [[1, 2], [- 1, - 2]] {1, - 2}"
  by (simp add: all_true_def)

lemma well_formed_classic: "well_formed [[1, 2], [- 1, - 2]]"
  by (simp add: well_formed_def lits_of_def)

section \<open>The claims\<close>

text \<open>
  Claim C1 (cross-engine agreement). The DP and the DPLL engine agree on every well-formed
  formula (both decide satisfiability). The resolution engine does not agree with them:
  on the satisfiable formula \<^verbatim>\<open>[[1,2],[-1,-2]]\<close> the DP engine answers true and the
  DPLL engine returns a model, but the resolution engine answers false, whatever the
  iteration order of its sets. The resolvent of the two clauses is a tautology, and
  \<^verbatim>\<open>resolve_pair\<close> removes both polarities of the chosen literal from the union, so
  resolving the tautology with the given clauses yields the two unit clauses of one
  variable.
\<close>

theorem engines_disagree:
  "(well_formed clauses \<longrightarrow> (dp_eliminate clauses \<longleftrightarrow> dpll_rec clauses {} \<noteq> None)) \<and>
   (valid_lit_order lo \<and> valid_clause_order co \<longrightarrow>
      satisfiable [[1, 2], [- 1, - 2]] \<and> dp_eliminate [[1, 2], [- 1, - 2]] \<and>
      dpll_rec [[1, 2], [- 1, - 2]] {} \<noteq> None \<and>
      resolution lo co [[1, 2], [- 1, - 2]] = Some False)"
proof (intro conjI impI)
  assume "well_formed clauses"
  then show "dp_eliminate clauses \<longleftrightarrow> dpll_rec clauses {} \<noteq> None" by (rule dp_dpll_agree)
next
  assume "valid_lit_order lo \<and> valid_clause_order co"
  then show "resolution lo co [[1, 2], [- 1, - 2]] = Some False"
    by (simp add: resolution_classic_instance)
  show "dp_eliminate [[1, 2], [- 1, - 2]]" by (simp add: dp_classic)
  then show "satisfiable [[1, 2], [- 1, - 2]]"
    by (simp add: dp_eliminate_correct[OF well_formed_classic])
  show "dpll_rec [[1, 2], [- 1, - 2]] {} \<noteq> None" by (simp add: dpll_classic)
qed

theorem engines_disagree_witness:
  "well_formed [[1, 2], [- 1, - 2]] \<and> dp_eliminate [[1, 2], [- 1, - 2]] \<and>
   dpll_rec [[1, 2], [- 1, - 2]] {} \<noteq> None \<and>
   resolution sorted_lits sorted_clauses [[1, 2], [- 1, - 2]] = Some False"
  using engines_disagree[of "[[1, 2], [- 1, - 2]]" sorted_lits sorted_clauses]
  by (simp add: valid_sorted_lits valid_sorted_clauses well_formed_classic)

text \<open>
  Claim C2 (resolution soundness and completeness). One direction holds: when the engine
  returns false, the empty clause is derivable from the given clauses by pairwise
  resolution; and a round ends the loop with false exactly when one of its resolvents is
  empty. The converse direction fails: in \<^verbatim>\<open>[[], [1]]\<close> the empty clause is given, so it is
  derivable and belongs to every fixpoint, and the engine returns true.
\<close>

theorem resolution_sound_but_misses_given_empty_clause:
  "(valid_lit_order lo \<and> valid_clause_order co \<and> resolution lo co clauses = Some False \<longrightarrow>
      derivable (set (map set clauses)) {}) \<and>
   (round_step lo co W = Verdict False \<longleftrightarrow>
      (\<exists>(c1, c2)\<in>set (pairs_of (co W)). resolve_pair lo c1 c2 = Some {})) \<and>
   (valid_lit_order lo \<and> valid_clause_order co \<longrightarrow>
      resolution lo co [[], [1]] = Some True \<and> derivable (set (map set [[], [1]])) {} \<and>
      {} \<in> set (map set [[], [1::int]]))"
proof (intro conjI impI)
  assume "valid_lit_order lo \<and> valid_clause_order co \<and> resolution lo co clauses = Some False"
  then show "derivable (set (map set clauses)) {}" by (blast intro: resolution_False_derivable)
next
  show "round_step lo co W = Verdict False \<longleftrightarrow>
      (\<exists>(c1, c2)\<in>set (pairs_of (co W)). resolve_pair lo c1 c2 = Some {})"
    by (rule round_step_False)
next
  assume v: "valid_lit_order lo \<and> valid_clause_order co"
  then show "resolution lo co [[], [1]] = Some True"
    by (intro resolution_no_clash) simp_all
  show "derivable (set (map set [[], [1]])) {}" by (rule derivable.given) simp
  show "{} \<in> set (map set [[], [1::int]])" by simp
qed

theorem resolution_sound_but_misses_given_empty_clause_witness:
  "resolution sorted_lits sorted_clauses [[1], [- 1]] = Some False \<and>
   derivable (set (map set [[1], [- 1]])) {} \<and>
   resolution sorted_lits sorted_clauses [[], [1]] = Some True"
  using resolution_sound_but_misses_given_empty_clause[of sorted_lits sorted_clauses "[[1], [- 1]]"]
  by (simp add: valid_sorted_lits valid_sorted_clauses resolution_unit_pair)

text \<open>
  Claim C3 (a formula with an empty clause). The DP engine returns false and the DPLL
  engine returns no model on every formula that contains an empty clause. The resolution
  engine only looks at resolvents: on \<^verbatim>\<open>[[]]\<close> it returns true.
\<close>

theorem empty_clause_verdicts:
  "([] \<in> set clauses \<longrightarrow> dp_eliminate clauses = False \<and> dpll_rec clauses {} = None) \<and>
   (valid_lit_order lo \<and> valid_clause_order co \<longrightarrow> resolution lo co [[]] = Some True)"
  by (auto simp: dp_eliminate_empty_clause dpll_rec_empty_clause resolution_single_empty)

theorem empty_clause_verdicts_witness:
  "dp_eliminate [[]] = False \<and> dpll_rec [[]] {} = None \<and>
   resolution sorted_lits sorted_clauses [[]] = Some True"
  using empty_clause_verdicts[of "[[]]" sorted_lits sorted_clauses]
  by (simp add: valid_sorted_lits valid_sorted_clauses)

text \<open>
  Claim C4 (the classic satisfiable instance). On \<^verbatim>\<open>[[1,2],[-1,-2]]\<close> the DP engine
  returns true and the DPLL engine returns the model \<^verbatim>\<open>{1,-2}\<close>, which contains a
  literal of each clause and no variable with both signs. The resolution engine returns
  false on it, for every iteration order.
\<close>

theorem classic_instance_verdicts:
  "dp_eliminate [[1, 2], [- 1, - 2]] = True \<and>
   dpll_rec [[1, 2], [- 1, - 2]] {} = Some {1, - 2} \<and>
   all_true [[1, 2], [- 1, - 2]] {1, - 2} \<and> consistent {1, - 2} \<and>
   (valid_lit_order lo \<and> valid_clause_order co \<longrightarrow>
      resolution lo co [[1, 2], [- 1, - 2]] = Some False)"
proof -
  have "all_true [[1, 2], [- 1, - 2]] {1, - 2}" by (simp add: all_true_def)
  moreover have "consistent {1, - 2}"
    using dpll_rec_consistent[OF consistent_empty dpll_classic] by simp
  ultimately show ?thesis
    by (simp add: dp_classic dpll_classic resolution_classic_instance)
qed

theorem classic_instance_verdicts_witness:
  "resolution sorted_lits sorted_clauses [[1, 2], [- 1, - 2]] = Some False"
  using classic_instance_verdicts[of sorted_lits sorted_clauses]
  by (simp add: valid_sorted_lits valid_sorted_clauses)

text \<open>
  Claim C5 (the model invariant of DPLL). Started from a model with no variable in both
  signs (the empty model is one), every extension the recursion performs, by the unit
  rule, the pure-literal rule or either branch, adds a literal that is unassigned in the
  model at that moment, the models before and after the extension have no variable in
  both signs, and neither has a returned model.
\<close>

theorem dpll_model_invariant:
  assumes "consistent model"
  shows "fst (dpll_trace clauses model) = dpll_rec clauses model \<and>
         (\<forall>(m, l)\<in>set (snd (dpll_trace clauses model)).
            model \<subseteq> m \<and> consistent m \<and> l \<notin> m \<and> - l \<notin> m \<and> consistent (m \<union> {l})) \<and>
         (\<forall>r. dpll_rec clauses model = Some r \<longrightarrow> consistent r)"
proof (intro conjI ballI allI impI)
  show "fst (dpll_trace clauses model) = dpll_rec clauses model" by (rule dpll_trace_result)
next
  fix e assume "e \<in> set (snd (dpll_trace clauses model))"
  from dpll_trace_extensions[OF assms this]
  show "case e of (m, l) \<Rightarrow>
          model \<subseteq> m \<and> consistent m \<and> l \<notin> m \<and> - l \<notin> m \<and> consistent (m \<union> {l})"
    by (simp add: extension_ok_def)
next
  fix r assume "dpll_rec clauses model = Some r"
  from dpll_rec_consistent[OF assms this] show "consistent r" by simp
qed

theorem dpll_model_invariant_witness:
  "consistent {} \<and>
   snd (dpll_trace [[1, 2], [- 1, - 2]] {}) = [({}, 1), ({1}, - 2)] \<and>
   dpll_rec [[1, 2], [- 1, - 2]] {} = Some {1, - 2} \<and>
   consistent {1} \<and> - 2 \<notin> {1::int} \<and> consistent ({1} \<union> {- 2}) \<and> consistent {1, - 2}"
  using dpll_model_invariant[OF consistent_empty, of "[[1, 2], [- 1, - 2]]"]
  by (simp add: dpll_trace_classic dpll_classic consistent_empty)

text \<open>
  Claim C7 (unit propagation in the DP engine). Unit propagation with the literal
  \<^verbatim>\<open>u\<close> removes every clause that contains \<^verbatim>\<open>u\<close> and removes \<^verbatim>\<open>-u\<close> from every
  remaining clause, unless that empties a clause: then the result is \<^verbatim>\<open>[[]]\<close>. When
  \<^verbatim>\<open>dp_eliminate\<close> applies the step, its result is the result on the propagated
  formula, and it is false when a clause was emptied.
\<close>

theorem dp_unit_propagation:
  "unit_propagate clauses u =
     (if unit_conflict clauses u then [[]]
      else map (filter (\<lambda>lit. lit \<noteq> - u)) (filter (\<lambda>c. u \<notin> set c) clauses))
   \<and> (\<forall>c\<in>set (unit_propagate clauses u). u \<notin> set c \<and> - u \<notin> set c)
   \<and> ([] \<notin> set clauses \<and> clauses \<noteq> [] \<and> find_pure_literal clauses = None \<and>
        find_unit_clause clauses = Some u \<longrightarrow>
        dp_eliminate clauses = dp_eliminate (unit_propagate clauses u) \<and>
        (unit_conflict clauses u \<longrightarrow> dp_eliminate clauses = False))"
proof (intro conjI impI ballI)
  show eq: "unit_propagate clauses u =
     (if unit_conflict clauses u then [[]]
      else map (filter (\<lambda>lit. lit \<noteq> - u)) (filter (\<lambda>c. u \<notin> set c) clauses))"
    by (simp add: unit_propagate_def unit_propagate_loop_eq)
  {
    fix c assume "c \<in> set (unit_propagate clauses u)"
    from unit_propagate_cases[OF this] show "u \<notin> set c" "- u \<notin> set c" by auto
  }
  assume a: "[] \<notin> set clauses \<and> clauses \<noteq> [] \<and> find_pure_literal clauses = None \<and>
        find_unit_clause clauses = Some u"
  then show st: "dp_eliminate clauses = dp_eliminate (unit_propagate clauses u)"
    by (simp add: dp_eliminate_unit_step)
  assume "unit_conflict clauses u"
  with eq have "unit_propagate clauses u = [[]]" by simp
  with st show "dp_eliminate clauses = False" by (simp add: dp_eliminate_empty_clause)
qed

theorem dp_unit_propagation_witness:
  "unit_propagate [[1], [- 1]] 1 = [[]] \<and> unit_conflict [[1], [- 1]] 1
   \<and> dp_eliminate [[1], [- 1]] = False"
proof -
  have c: "unit_conflict [[1], [- 1]] 1" by (simp add: unit_conflict_def)
  have g: "[] \<notin> set [[1], [- 1::int]] \<and> [[1], [- 1::int]] \<noteq> [] \<and>
      find_pure_literal [[1], [- 1]] = None \<and> find_unit_clause [[1], [- 1]] = Some 1"
    by (simp add: find_pure_literal_ex1)
  from dp_unit_propagation[of "[[1], [- 1]]" 1] c g show ?thesis
    by (simp add: dp_eliminate_empty_clause)
qed

text \<open>
  Claim C8 (termination of the DP engine), as stated: every recursive call is made on a
  formula whose set of variables is a strict subset of the caller's. This fails for
  variable elimination when a clause contains the pivot in both signs: on
  \<^verbatim>\<open>[[1,-1,2],[-1,3],[-2,-3]]\<close> the elimination of variable 1 keeps the resolvent
  \<^verbatim>\<open>[-1,2,3]\<close>, and the variables stay 1, 2 and 3.
\<close>

theorem dp_elimination_keeps_variables:
  "[] \<notin> set [[1, - 1, 2], [- 1, 3], [- 2, - 3::int]] \<and>
   find_pure_literal [[1, - 1, 2], [- 1, 3], [- 2, - 3]] = None \<and>
   find_unit_clause [[1, - 1, 2], [- 1, 3], [- 2, - 3]] = None \<and>
   dp_eliminate [[1, - 1, 2], [- 1, 3], [- 2, - 3]] =
     dp_eliminate (eliminate [[1, - 1, 2], [- 1, 3], [- 2, - 3]]) \<and>
   eliminate [[1, - 1, 2], [- 1, 3], [- 2, - 3]] = [[- 2, - 3], [- 1, 2, 3]] \<and>
   \<not> vars_of (eliminate [[1, - 1, 2], [- 1, 3], [- 2, - 3]])
       \<subset> vars_of [[1, - 1, 2], [- 1, 3], [- 2, - 3]]"
proof -
  have "dp_eliminate [[1, - 1, 2], [- 1, 3], [- 2, - 3]] =
     dp_eliminate (eliminate [[1, - 1, 2], [- 1, 3], [- 2, - 3]])"
    by (subst dp_eliminate.simps) (simp add: c8_eval1)
  then show ?thesis
    by (simp add: c8_eval1 c8_eval2 c8_eval3 c8_eval4)
qed

text \<open>
  Claim C8, amended. \<^verbatim>\<open>dp_eliminate\<close> is total (its termination is proved above with
  this measure). The pure-literal and the unit step are made on a strictly smaller set of
  variables. The elimination step is made on a subset of the variables, strictly smaller
  when no clause contains the pivot in both signs; in every case the pivot no longer
  occurs with both signs inside one clause and no other variable starts to, so the
  measure decreases.
\<close>

theorem dp_recursion_measure:
  "(find_pure_literal clauses = Some p \<longrightarrow>
      vars_of (filter (\<lambda>c. p \<notin> set c) clauses) \<subset> vars_of clauses \<and>
      dp_measure (filter (\<lambda>c. p \<notin> set c) clauses) < dp_measure clauses)
   \<and> (find_unit_clause clauses = Some u \<longrightarrow>
      vars_of (unit_propagate clauses u) \<subset> vars_of clauses \<and>
      dp_measure (unit_propagate clauses u) < dp_measure clauses)
   \<and> (clauses \<noteq> [] \<and> [] \<notin> set clauses \<longrightarrow>
      vars_of (eliminate clauses) \<subseteq> vars_of clauses \<and>
      taut_vars_of (eliminate clauses) \<subseteq> taut_vars_of clauses - {\<bar>hd (hd clauses)\<bar>} \<and>
      (\<bar>hd (hd clauses)\<bar> \<notin> taut_vars_of clauses \<longrightarrow>
         vars_of (eliminate clauses) \<subset> vars_of clauses) \<and>
      dp_measure (eliminate clauses) < dp_measure clauses)"
proof (intro conjI impI)
  assume "find_pure_literal clauses = Some p"
  then show "vars_of (filter (\<lambda>c. p \<notin> set c) clauses) \<subset> vars_of clauses"
    "dp_measure (filter (\<lambda>c. p \<notin> set c) clauses) < dp_measure clauses"
    by (simp_all add: pure_step_vars dp_measure_pure)
next
  assume "find_unit_clause clauses = Some u"
  then show "vars_of (unit_propagate clauses u) \<subset> vars_of clauses"
    "dp_measure (unit_propagate clauses u) < dp_measure clauses"
    by (simp_all add: unit_step_vars dp_measure_unit)
next
  assume a: "clauses \<noteq> [] \<and> [] \<notin> set clauses"
  show "vars_of (eliminate clauses) \<subseteq> vars_of clauses" by (rule elim_step_vars)
  show "taut_vars_of (eliminate clauses) \<subseteq> taut_vars_of clauses - {\<bar>hd (hd clauses)\<bar>}"
    by (rule elim_step_taut)
  from a have b: "clauses \<noteq> []" "\<not> (\<exists>c\<in>set clauses. length c = 0)" by auto
  from dp_measure_elim[OF b] show "dp_measure (eliminate clauses) < dp_measure clauses" .
  assume "\<bar>hd (hd clauses)\<bar> \<notin> taut_vars_of clauses"
  from elim_step_pivot_gone[OF this] pivot_in_vars[OF b] elim_step_vars[of clauses]
  show "vars_of (eliminate clauses) \<subset> vars_of clauses" by blast
qed

theorem dp_recursion_measure_witness:
  "vars_of (filter (\<lambda>c. 2 \<notin> set c) [[1], [- 1, 2]]) \<subset> vars_of [[1], [- 1, 2]] \<and>
   vars_of (unit_propagate [[1], [- 1, 2]] 1) \<subset> vars_of [[1], [- 1, 2]] \<and>
   vars_of (eliminate [[1], [- 1, 2]]) \<subset> vars_of [[1], [- 1, 2]] \<and>
   dp_measure (eliminate [[1], [- 1, 2]]) < dp_measure [[1], [- 1, 2]]"
  using dp_recursion_measure[of "[[1], [- 1, 2]]" 2 1]
  by (simp add: c8_wit1 c8_wit2)

text \<open>
  Claim C9 (\<^verbatim>\<open>resolve_pair\<close>). The result is \<^verbatim>\<open>None\<close> exactly when no literal of
  \<^verbatim>\<open>c1\<close> has its negation in \<^verbatim>\<open>c2\<close>. Otherwise it is the union of the two
  clauses minus a literal of \<^verbatim>\<open>c1\<close> whose negation is in \<^verbatim>\<open>c2\<close> and minus that
  negation: both are absent from the result wherever they occurred, and every other
  literal of the two clauses is kept, so the resolvent can be a tautology.
\<close>

theorem resolve_pair_spec:
  assumes "valid_lit_order lo" "finite c1"
  shows "(resolve_pair lo c1 c2 = None \<longleftrightarrow> \<not> (\<exists>l\<in>c1. - l \<in> c2)) \<and>
         (\<forall>r. resolve_pair lo c1 c2 = Some r \<longrightarrow>
            (\<exists>l\<in>c1. - l \<in> c2 \<and> r = (c1 \<union> c2) - {l, - l} \<and> l \<notin> r \<and> - l \<notin> r \<and>
               (\<forall>k\<in>c1 \<union> c2. k \<noteq> l \<and> k \<noteq> - l \<longrightarrow> k \<in> r)))"
proof (intro conjI allI impI)
  show "resolve_pair lo c1 c2 = None \<longleftrightarrow> \<not> (\<exists>l\<in>c1. - l \<in> c2)"
    using resolve_pair_None[OF assms, of c2] by auto
next
  fix r assume "resolve_pair lo c1 c2 = Some r"
  from resolve_pair_Some[OF assms this] obtain l where
    l: "l \<in> c1" "- l \<in> c2" "r = (c1 \<union> c2) - {l, - l}" by blast
  then have "l \<notin> r \<and> - l \<notin> r \<and> (\<forall>k\<in>c1 \<union> c2. k \<noteq> l \<and> k \<noteq> - l \<longrightarrow> k \<in> r)" by auto
  with l show "\<exists>l\<in>c1. - l \<in> c2 \<and> r = (c1 \<union> c2) - {l, - l} \<and> l \<notin> r \<and> - l \<notin> r \<and>
               (\<forall>k\<in>c1 \<union> c2. k \<noteq> l \<and> k \<noteq> - l \<longrightarrow> k \<in> r)" by blast
qed

theorem resolve_pair_spec_witness:
  "resolve_pair sorted_lits {1, 2} {- 1, - 2} = Some {2, - 2} \<and>
   (\<exists>l\<in>{1, 2::int}. - l \<in> {- 1, - 2::int} \<and>
       {2, - 2} = ({1, 2} \<union> {- 1, - 2}) - {l, - l} \<and> l \<notin> {2, - 2::int})"
proof -
  have f: "finite {1, 2::int}" by simp
  from resolve_pair_spec[OF valid_sorted_lits f, of "{- 1, - 2}"] resolve_pair_ex
  show ?thesis by (simp only: resolve_pair_ex simp_thms option.inject) blast
qed

text \<open>
  Claim C10 (the working set grows). At the start of every round the working set
  contains the given clauses, a later round's working set contains an earlier round's,
  and a round that does not end the loop strictly enlarges it.
\<close>

theorem working_set_grows:
  "(working_set lo co (set (map set clauses)) n = Some Wn \<longrightarrow> set (map set clauses) \<subseteq> Wn) \<and>
   (m \<le> n \<and> working_set lo co W m = Some Wm \<and> working_set lo co W n = Some Wn \<longrightarrow> Wm \<subseteq> Wn) \<and>
   (round_step lo co W = Continue W' \<longrightarrow> W \<subset> W')"
proof (intro conjI impI)
  assume "working_set lo co (set (map set clauses)) n = Some Wn"
  then show "set (map set clauses) \<subseteq> Wn" by (rule working_set_mono)
next
  assume a: "m \<le> n \<and> working_set lo co W m = Some Wm \<and> working_set lo co W n = Some Wn"
  then obtain k where "n = m + k" by (auto simp: le_iff_add)
  with a working_set_split[of lo co W m k Wn] have "working_set lo co Wm k = Some Wn" by auto
  then show "Wm \<subseteq> Wn" by (rule working_set_mono)
next
  assume "round_step lo co W = Continue W'"
  from round_step_Continue[OF this] show "W \<subset> W'" by auto
qed

theorem working_set_grows_witness:
  "working_set sorted_lits sorted_clauses (set (map set [[1, 2], [- 1, 3]])) 1
     = Some {{1, 2}, {- 1, 3}, {2, 3}} \<and>
   set (map set [[1, 2], [- 1, 3]]) \<subseteq> {{1, 2}, {- 1, 3}, {2, 3::int}}"
proof -
  note e = working_set_example[OF valid_sorted_lits valid_sorted_clauses]
  from working_set_grows[of sorted_lits sorted_clauses "[[1, 2], [- 1, 3]]" 1
      "{{1, 2}, {- 1, 3}, {2, 3}}"] e
  have "set (map set [[1, 2], [- 1, 3]]) \<subseteq> {{1, 2}, {- 1, 3}, {2, 3::int}}" by blast
  with e show ?thesis by blast
qed

end
